theory Spec2Isabelle
  imports Main "HOL-Library.AList"
begin

section \<open>Data model of the Collection (collection.ts)\<close>

text \<open>
  A record of the collection is a JavaScript object. Its contents are its fields in
  insertion order; its identity is a reference, because the collection keeps a
  \<^verbatim>\<open>WeakMap\<close> from objects to keys (\<^verbatim>\<open>objectKeyMap\<close>). References handed in by
  callers and by the sync source are \<open>Ext\<close>; every object literal that the collection
  itself builds and that can reach the read view gets the next \<open>Alloc\<close> reference.
\<close>

type_synonym key = string

datatype val = VNull | VBool bool | VNum int | VStr string

type_synonym fields = "(string \<times> val) list"

datatype ref = Ext nat | Alloc nat

record obj =
  oid :: ref
  props :: fields

text \<open>
  The spread \<^verbatim>\<open>{...a, ...b}\<close>: the fields of \<open>a\<close>, each field of \<open>b\<close> then set in
  turn.
\<close>

definition assign :: "fields \<Rightarrow> fields \<Rightarrow> fields" where
  "assign a b = foldl (\<lambda>acc (k, v). AList.update k v acc) a b"

datatype op_type = Insert | Update | Delete

text \<open>\<^verbatim>\<open>ChangeMessage\<close>: \<^verbatim>\<open>{type, key, value, metadata?}\<close>.\<close>

record change_message =
  msg_type :: op_type
  msg_key :: key
  msg_value :: obj
  msg_metadata :: "fields option"

text \<open>\<^verbatim>\<open>PendingSyncedTransaction\<close>: one ingestion buffer.\<close>

record pending_synced =
  committed :: bool
  operations :: "change_message list"

text \<open>
  \<^verbatim>\<open>PendingMutation\<close>. The fields \<^verbatim>\<open>mutationId\<close>, \<^verbatim>\<open>createdAt\<close> and
  \<^verbatim>\<open>updatedAt\<close> (a random UUID and two clock readings) are left out. Of the three
  objects a mutation holds, only \<^verbatim>\<open>modified\<close> can enter the read view by reference.
\<close>

record pending_mutation =
  original :: fields
  modified :: obj
  changes :: fields
  mkey :: key
  metadata :: "fields option"
  syncMetadata :: fields
  mtype :: op_type

text \<open>
  Modelled from the spec: \<^verbatim>\<open>TransactionState\<close> is declared in types.ts, which is not
  part of the sources; the lifecycle states are the four of spec section 3.
\<close>

datatype transaction_state = Pending | Persisting | Completed | Failed

record transaction =
  tx_state :: transaction_state
  mutations :: "pending_mutation list"

type_synonym issue = "string \<times> string list option"

datatype validation_result = VPromise | VIssues "issue list" | VValue obj

datatype schema = NotStandard | Standard "obj \<Rightarrow> validation_result"

record collection_config =
  has_sync :: bool
  has_mutationFn :: bool
  cfg_schema :: "schema option"
  getSyncMetadata :: "fields option"
  generateKey :: "fields \<Rightarrow> key"

datatype error =
    MissingSyncConfig
  | NoPendingSyncToWrite
  | WriteAfterCommit
  | NoPendingSyncToCommit
  | CommitAfterCommit
  | InvalidSchema
  | ValidationNotSynchronous
  | SchemaValidationError op_type "issue list"
  | MissingMutationFn
  | MoreKeysThanItems
  | MissingFirstArgument
  | ObjectNotFound
  | InvalidItemForUpdate
  | InvalidItemForDelete
  | NoChangesMade

text \<open>
  The state of one \<^verbatim>\<open>Collection\<close> instance. The \<^verbatim>\<open>Map\<close>s are association
  lists, since a JavaScript \<^verbatim>\<open>Map\<close> iterates in insertion order: \<open>AList.update\<close>
  replaces in place or appends, as \<^verbatim>\<open>Map.set\<close> does. \<open>transactions\<close> is the
  value list of the transaction manager's sorted map. \<open>derivedState\<close> is the cached value
  of the \<^verbatim>\<open>Derived\<close> store. A first-commit callback is a number, and \<open>fired\<close> is the
  trace of the callbacks that were called.
\<close>

record collection =
  config :: collection_config
  transactions :: "transaction list"
  syncedData :: "(key \<times> obj) list"
  syncedMetadata :: "(key \<times> fields option) list"
  pendingSyncedTransactions :: "pending_synced list"
  hasReceivedFirstCommit :: bool
  objectKeyMap :: "(ref \<times> key) list"
  onFirstCommitCallbacks :: "nat list"
  derivedState :: "(key \<times> obj) list"
  nextRef :: nat
  fired :: "nat list"

section \<open>The derived read view\<close>

definition message_of :: "pending_mutation \<Rightarrow> change_message" where
  "message_of mutation =
     \<lparr>msg_type = mtype mutation, msg_key = mkey mutation,
      msg_value = modified mutation, msg_metadata = metadata mutation\<rparr>"

definition live :: "transaction \<Rightarrow> bool" where
  "live transaction \<longleftrightarrow> tx_state transaction \<noteq> Completed \<and> tx_state transaction \<noteq> Failed"

definition optimisticOperations :: "transaction list \<Rightarrow> change_message list" where
  "optimisticOperations txs =
     concat (map (\<lambda>transaction. map message_of (mutations transaction)) (filter live txs))"

text \<open>\<^verbatim>\<open>{...(x || {})}\<close> for an optional object \<open>x\<close>.\<close>

definition spread :: "obj option \<Rightarrow> fields" where
  "spread x = (case x of None \<Rightarrow> [] | Some v \<Rightarrow> props v)"

text \<open>
  One round of the loop of \<^verbatim>\<open>derivedState\<close>. The update case reads the existing value
  from \<open>synced\<close>, not from \<open>combined\<close>, and builds a new object.
\<close>

definition apply_operation ::
  "(key \<times> obj) list \<Rightarrow> (key \<times> obj) list \<times> nat \<Rightarrow> change_message \<Rightarrow> (key \<times> obj) list \<times> nat"
where
  "apply_operation synced acc operation =
     (case acc of (combined, n) \<Rightarrow>
       (case msg_type operation of
          Insert \<Rightarrow> (AList.update (msg_key operation) (msg_value operation) combined, n)
        | Update \<Rightarrow>
            (AList.update (msg_key operation)
               \<lparr>oid = Alloc n,
                props = assign (spread (map_of synced (msg_key operation))) (props (msg_value operation))\<rparr>
               combined,
             Suc n)
        | Delete \<Rightarrow> (AList.delete (msg_key operation) combined, n)))"

definition combine ::
  "(key \<times> obj) list \<Rightarrow> change_message list \<Rightarrow> nat \<Rightarrow> (key \<times> obj) list \<times> nat" where
  "combine synced ops n = foldl (apply_operation synced) (synced, n) ops"

text \<open>A \<^verbatim>\<open>Set\<close> keeps the first insertion of each element.\<close>

definition set_add :: "'a list \<Rightarrow> 'a \<Rightarrow> 'a list" where
  "set_add ks k = (if k \<in> set ks then ks else ks @ [k])"

definition track :: "(key \<times> obj) list \<Rightarrow> (ref \<times> key) list \<Rightarrow> key \<Rightarrow> (ref \<times> key) list" where
  "track st okm k = (case map_of st k of None \<Rightarrow> okm | Some v \<Rightarrow> AList.update (oid v) k okm)"

text \<open>
  Recomputation of the \<^verbatim>\<open>Derived\<close> store: it runs whenever \<^verbatim>\<open>syncedData\<close> or the
  transactions are set.
\<close>

definition recompute :: "collection \<Rightarrow> collection" where
  "recompute c =
     (let ops = optimisticOperations (transactions c);
          res = combine (syncedData c) ops (nextRef c);
          optimisticKeys = foldl set_add [] (map msg_key ops)
      in c\<lparr>derivedState := fst res,
           objectKeyMap := foldl (track (fst res)) (objectKeyMap c) optimisticKeys,
           nextRef := snd res\<rparr>)"

text \<open>The getters \<^verbatim>\<open>state\<close> and \<^verbatim>\<open>toArray\<close>.\<close>

definition state :: "collection \<Rightarrow> (key \<times> obj) list" where
  "state c = derivedState c"

definition toArray :: "collection \<Rightarrow> obj list" where
  "toArray c = map snd (derivedState c)"

text \<open>The contents of a \<^verbatim>\<open>Map\<close> of records, without order and identity.\<close>

definition view :: "(key \<times> obj) list \<Rightarrow> key \<rightharpoonup> fields" where
  "view al = map_option props \<circ> map_of al"

section \<open>The ingestion protocol and the merge\<close>

definition meta_get :: "(key \<times> fields option) list \<Rightarrow> key \<Rightarrow> fields" where
  "meta_get md k = (case map_of md k of Some (Some f) \<Rightarrow> f | _ \<Rightarrow> [])"

definition meta_spread :: "fields option \<Rightarrow> fields" where
  "meta_spread x = (case x of None \<Rightarrow> [] | Some f \<Rightarrow> f)"

definition set_metadata ::
  "(key \<times> fields option) list \<Rightarrow> change_message \<Rightarrow> (key \<times> fields option) list" where
  "set_metadata prevData operation =
     (case msg_type operation of
        Insert \<Rightarrow> AList.update (msg_key operation) (msg_metadata operation) prevData
      | Update \<Rightarrow>
          AList.update (msg_key operation)
            (Some (assign (meta_get prevData (msg_key operation)) (meta_spread (msg_metadata operation))))
            prevData
      | Delete \<Rightarrow> AList.delete (msg_key operation) prevData)"

definition set_data ::
  "(key \<times> obj) list \<times> nat \<Rightarrow> change_message \<Rightarrow> (key \<times> obj) list \<times> nat" where
  "set_data acc operation =
     (case acc of (prevData, n) \<Rightarrow>
       (case msg_type operation of
          Insert \<Rightarrow> (AList.update (msg_key operation) (msg_value operation) prevData, n)
        | Update \<Rightarrow>
            (AList.update (msg_key operation)
               \<lparr>oid = Alloc n,
                props = assign (spread (map_of prevData (msg_key operation))) (props (msg_value operation))\<rparr>
               prevData,
             Suc n)
        | Delete \<Rightarrow> (AList.delete (msg_key operation) prevData, n)))"

text \<open>The body of the inner loop of \<^verbatim>\<open>commitPendingTransactions\<close>.\<close>

definition merge_operation :: "collection \<times> key list \<Rightarrow> change_message \<Rightarrow> collection \<times> key list" where
  "merge_operation acc operation =
     (case acc of (c, keys) \<Rightarrow>
        (let res = set_data (syncedData c, nextRef c) operation
         in (c\<lparr>syncedMetadata := set_metadata (syncedMetadata c) operation,
               syncedData := fst res,
               nextRef := snd res\<rparr>,
             set_add keys (msg_key operation))))"

definition merge_buffer :: "collection \<times> key list \<Rightarrow> pending_synced \<Rightarrow> collection \<times> key list" where
  "merge_buffer acc buffer = foldl merge_operation acc (operations buffer)"

definition isNotTerminalState :: "transaction \<Rightarrow> bool" where
  "isNotTerminalState transaction \<longleftrightarrow> tx_state transaction \<notin> {Completed, Failed}"

definition may_merge :: "collection \<Rightarrow> bool" where
  "may_merge c \<longleftrightarrow>
     length (transactions c) = 0 \<or> \<not> list_ex isNotTerminalState (transactions c)"

definition fire_first_commit :: "collection \<Rightarrow> collection" where
  "fire_first_commit c =
     (if \<not> hasReceivedFirstCommit c then
        c\<lparr>hasReceivedFirstCommit := True,
          onFirstCommitCallbacks := [],
          fired := fired c @ onFirstCommitCallbacks c\<rparr>
      else c)"

text \<open>
  \<^verbatim>\<open>commitPendingTransactions\<close>. The batch ends with one recomputation of the read view
  when at least one store was set.
\<close>

definition commitPendingTransactions :: "collection \<Rightarrow> collection" where
  "commitPendingTransactions c =
     (if may_merge c then
        (let merged = foldl merge_buffer (c, []) (pendingSyncedTransactions c);
             c1 = (if concat (map operations (pendingSyncedTransactions c)) = []
                   then fst merged else recompute (fst merged));
             c2 = c1\<lparr>objectKeyMap := foldl (track (state c1)) (objectKeyMap c1) (snd merged)\<rparr>;
             c3 = c2\<lparr>pendingSyncedTransactions := []\<rparr>
         in fire_first_commit c3)
      else c)"

text \<open>
  The three callbacks handed to the sync source \<^verbatim>\<open>begin\<close>, \<^verbatim>\<open>write\<close>
  and \<^verbatim>\<open>commit\<close>.
\<close>

definition begin_sync :: "collection \<Rightarrow> error + collection" where
  "begin_sync c =
     Inr (c\<lparr>pendingSyncedTransactions :=
              pendingSyncedTransactions c @ [\<lparr>committed = False, operations = []\<rparr>]\<rparr>)"

definition write_sync :: "collection \<Rightarrow> change_message \<Rightarrow> error + collection" where
  "write_sync c message =
     (case rev (pendingSyncedTransactions c) of
        [] \<Rightarrow> Inl NoPendingSyncToWrite
      | pendingTransaction # earlier \<Rightarrow>
          if committed pendingTransaction then Inl WriteAfterCommit
          else Inr (c\<lparr>pendingSyncedTransactions :=
                        rev earlier @
                        [pendingTransaction\<lparr>operations := operations pendingTransaction @ [message]\<rparr>]\<rparr>))"

definition commit_sync :: "collection \<Rightarrow> error + collection" where
  "commit_sync c =
     (case rev (pendingSyncedTransactions c) of
        [] \<Rightarrow> Inl NoPendingSyncToCommit
      | pendingTransaction # earlier \<Rightarrow>
          if committed pendingTransaction then Inl CommitAfterCommit
          else Inr (commitPendingTransactions
                      (c\<lparr>pendingSyncedTransactions :=
                           rev earlier @ [pendingTransaction\<lparr>committed := True\<rparr>]\<rparr>)))"

text \<open>The constructor, up to the call of \<^verbatim>\<open>config.sync.sync\<close>.\<close>

definition initial :: "collection_config \<Rightarrow> collection" where
  "initial cfg =
     \<lparr>config = cfg, transactions = [], syncedData = [], syncedMetadata = [],
      pendingSyncedTransactions = [], hasReceivedFirstCommit = False,
      objectKeyMap = [], onFirstCommitCallbacks = [], derivedState = [],
      nextRef = 0, fired = []\<rparr>"

definition new_collection :: "collection_config \<Rightarrow> error + collection" where
  "new_collection cfg = (if \<not> has_sync cfg then Inl MissingSyncConfig else Inr (initial cfg))"

definition onFirstCommit :: "collection \<Rightarrow> nat \<Rightarrow> collection" where
  "onFirstCommit c callback = c\<lparr>onFirstCommitCallbacks := onFirstCommitCallbacks c @ [callback]\<rparr>"

section \<open>The transaction coordinator\<close>

text \<open>
  Modelled from the spec: the transaction manager (TransactionManager.ts) is not part of
  the sources. By spec sections 4.1 and 4.4 every change of the transaction set recomputes
  the read view and retries the merge; the constructor's own subscription to the
  transactions is commented out in collection.ts.
\<close>

definition set_transactions :: "collection \<Rightarrow> transaction list \<Rightarrow> collection" where
  "set_transactions c txs = commitPendingTransactions (recompute (c\<lparr>transactions := txs\<rparr>))"

text \<open>
  Modelled from the spec: \<^verbatim>\<open>applyTransaction\<close> (TransactionManager.ts, not in the
  sources) creates the transaction in \<open>Pending\<close> and makes it visible to the read view
  before it returns (spec section 4.2); transactions are kept in creation order.
\<close>

definition applyTransaction :: "collection \<Rightarrow> pending_mutation list \<Rightarrow> collection" where
  "applyTransaction c ms =
     set_transactions c (transactions c @ [\<lparr>tx_state = Pending, mutations = ms\<rparr>])"

text \<open>
  Modelled from the spec: the coordinator moves the \<open>i\<close>-th transaction to a new lifecycle
  state; a transaction that is completed or failed is immutable (spec section 3).
\<close>

definition setTransactionState :: "collection \<Rightarrow> nat \<Rightarrow> transaction_state \<Rightarrow> collection" where
  "setTransactionState c i st =
     (if i < length (transactions c) \<and> live (transactions c ! i)
      then set_transactions c ((transactions c)[i := (transactions c ! i)\<lparr>tx_state := st\<rparr>])
      else c)"

section \<open>The schema gate\<close>

definition check :: "(obj \<Rightarrow> validation_result) \<Rightarrow> op_type \<Rightarrow> obj \<Rightarrow> error + obj" where
  "check validate type data =
     (case validate data of
        VPromise \<Rightarrow> Inl ValidationNotSynchronous
      | VIssues issues \<Rightarrow> Inl (SchemaValidationError type issues)
      | VValue v \<Rightarrow> Inr v)"

text \<open>
  \<^verbatim>\<open>validateData(data, type, key?)\<close>. The test \<^verbatim>\<open>type === `update` && key\<close> is false
  for the empty string. The schema is given an object and returns an object; the merged
  record is a new object, built with the free reference \<open>n\<close>.
\<close>

definition validateData ::
  "collection \<Rightarrow> nat \<Rightarrow> obj \<Rightarrow> op_type \<Rightarrow> key option \<Rightarrow> error + obj" where
  "validateData c n data type key =
     (case cfg_schema (config c) of
        None \<Rightarrow> Inr data
      | Some NotStandard \<Rightarrow> Inl InvalidSchema
      | Some (Standard validate) \<Rightarrow>
          (case (if type = Update
                 then (case key of
                         None \<Rightarrow> None
                       | Some k \<Rightarrow> if k = [] then None else map_of (state c) k)
                 else None) of
             Some existingData \<Rightarrow>
               (case check validate type
                       \<lparr>oid = Alloc n, props = assign (props existingData) (props data)\<rparr> of
                  Inl e \<Rightarrow> Inl e
                | Inr _ \<Rightarrow> Inr data)
           | None \<Rightarrow> check validate type data))"

section \<open>The mutation operations\<close>

datatype item = ObjItem obj | StrItem string | OtherItem

datatype 'a arg = Single 'a | Many "'a list"

definition itemsArray :: "'a arg \<Rightarrow> 'a list" where
  "itemsArray a = (case a of Single x \<Rightarrow> [x] | Many xs \<Rightarrow> xs)"

definition isArray :: "'a arg \<Rightarrow> bool" where
  "isArray a = (case a of Single _ \<Rightarrow> False | Many _ \<Rightarrow> True)"

datatype key_config = NoKey | KeyString key | KeyArray "key list"

definition insert_keys :: "collection \<Rightarrow> obj list \<Rightarrow> key_config \<Rightarrow> error + key list" where
  "insert_keys c items kc =
     (let gen = (\<lambda>item. generateKey (config c) (props item))
      in case kc of
           NoKey \<Rightarrow> Inr (map gen items)
         | KeyString k \<Rightarrow>
             if k = [] then Inr (map gen items)
             else Inr (map (\<lambda>(i, item). if i = 0 then k else gen item) (enumerate 0 items))
         | KeyArray ks \<Rightarrow>
             if length ks > length items then Inl MoreKeysThanItems
             else Inr (map (\<lambda>(i, item). if i < length ks then ks ! i else gen item)
                         (enumerate 0 items)))"

text \<open>
  The loop of \<^verbatim>\<open>insert\<close> over the items. The validated value is the item itself
  without a schema, and the object the schema returns otherwise; it is stored as
  \<^verbatim>\<open>modified\<close> and as \<^verbatim>\<open>changes\<close>.
\<close>

fun insert_mutations ::
  "collection \<Rightarrow> fields option \<Rightarrow> obj list \<Rightarrow> key list \<Rightarrow> error + pending_mutation list"
where
  "insert_mutations c md (item # items) (k # keys) =
     (case validateData c (nextRef c) item Insert None of
        Inl e \<Rightarrow> Inl e
      | Inr validatedData \<Rightarrow>
          (case insert_mutations c md items keys of
             Inl e \<Rightarrow> Inl e
           | Inr ms \<Rightarrow>
               Inr (\<lparr>original = [],
                     modified = validatedData,
                     changes = props validatedData,
                     mkey = k,
                     metadata = md,
                     syncMetadata = meta_spread (getSyncMetadata (config c)),
                     mtype = Insert\<rparr> # ms)))"
| "insert_mutations c md _ _ = Inr []"

text \<open>\<^verbatim>\<open>insert\<close> (named \<open>insert_records\<close>, since \<open>insert\<close> adds to a set).\<close>

definition insert_records :: "collection \<Rightarrow> obj arg \<Rightarrow> key_config \<Rightarrow> fields option \<Rightarrow> error + collection" where
  "insert_records c data kc md =
     (if \<not> has_mutationFn (config c) then Inl MissingMutationFn
      else case insert_keys c (itemsArray data) kc of
             Inl e \<Rightarrow> Inl e
           | Inr keys \<Rightarrow>
               (case insert_mutations c md (itemsArray data) keys of
                  Inl e \<Rightarrow> Inl e
                | Inr ms \<Rightarrow> Inr (applyTransaction c ms)))"

text \<open>
  The draft-diff tracker (proxy.ts) is not part of the sources: the diffs it reports for
  the caller's callback are a parameter, \<open>None\<close> standing for a missing diff.
\<close>

record tracking =
  withChangeTracking :: "fields \<Rightarrow> fields option"
  withArrayChangeTracking :: "fields list \<Rightarrow> fields option list"

fun update_keys :: "collection \<Rightarrow> item list \<Rightarrow> error + key list" where
  "update_keys c [] = Inr []"
| "update_keys c (ObjItem v # items) =
     (case map_of (objectKeyMap c) (oid v) of
        None \<Rightarrow> Inl ObjectNotFound
      | Some k \<Rightarrow> (case update_keys c items of Inl e \<Rightarrow> Inl e | Inr ks \<Rightarrow> Inr (k # ks)))"
| "update_keys c (_ # items) = Inl InvalidItemForUpdate"

text \<open>
  The \<^verbatim>\<open>keys.map\<close> of \<^verbatim>\<open>update\<close> that builds the mutations: a missing or empty diff
  is skipped, the first diff the schema rejects ends the call. Three objects are new for
  each mutation: the diff the tracker returned, the merged record that
  \<^verbatim>\<open>validateData\<close> may build, and \<^verbatim>\<open>modified\<close>.
\<close>

fun update_mutations ::
  "collection \<Rightarrow> fields option \<Rightarrow> nat \<Rightarrow> key list \<Rightarrow> fields option list \<Rightarrow> error + pending_mutation list"
where
  "update_mutations c md n [] changesArray = Inr []"
| "update_mutations c md n (k # keys) changesArray =
     (case (case changesArray of [] \<Rightarrow> None | x # _ \<Rightarrow> x) of
        None \<Rightarrow> update_mutations c md n keys (tl changesArray)
      | Some changes' \<Rightarrow>
          if changes' = [] then update_mutations c md n keys (tl changesArray)
          else
            (case validateData c (n + 1) \<lparr>oid = Alloc n, props = changes'\<rparr> Update (Some k) of
               Inl e \<Rightarrow> Inl e
             | Inr validatedData \<Rightarrow>
                 (case update_mutations c md (n + 3) keys (tl changesArray) of
                    Inl e \<Rightarrow> Inl e
                  | Inr ms \<Rightarrow>
                      Inr (\<lparr>original = spread (map_of (state c) k),
                            modified =
                              \<lparr>oid = Alloc (n + 2),
                               props = assign (spread (map_of (state c) k)) (props validatedData)\<rparr>,
                            changes = props validatedData,
                            mkey = k,
                            metadata = md,
                            syncMetadata = meta_get (syncedMetadata c) k,
                            mtype = Update\<rparr> # ms))))"

definition update ::
  "collection \<Rightarrow> item arg option \<Rightarrow> fields option \<Rightarrow> tracking \<Rightarrow> error + collection" where
  "update c items md tr =
     (if \<not> has_mutationFn (config c) then Inl MissingMutationFn
      else case items of
             None \<Rightarrow> Inl MissingFirstArgument
           | Some a \<Rightarrow>
               (case update_keys c (itemsArray a) of
                  Inl e \<Rightarrow> Inl e
                | Inr keys \<Rightarrow>
                    (let currentObjects = map (\<lambda>k. spread (map_of (state c) k)) keys;
                         changesArray =
                           (if isArray a then withArrayChangeTracking tr currentObjects
                            else map (withChangeTracking tr) (take 1 currentObjects))
                     in case update_mutations c md (nextRef c) keys changesArray of
                          Inl e \<Rightarrow> Inl e
                        | Inr ms \<Rightarrow>
                            if length ms = 0 then Inl NoChangesMade
                            else Inr (applyTransaction
                                        (c\<lparr>nextRef := nextRef c + 3 * length ms\<rparr>) ms))))"

definition tombstone :: fields where
  "tombstone = [(''_deleted'', VBool True)]"

fun delete_mutations ::
  "collection \<Rightarrow> fields option \<Rightarrow> nat \<Rightarrow> item list \<Rightarrow> error + pending_mutation list"
where
  "delete_mutations c md n [] = Inr []"
| "delete_mutations c md n (item # items) =
     (case (case item of
              ObjItem v \<Rightarrow>
                (case map_of (objectKeyMap c) (oid v) of None \<Rightarrow> Inl ObjectNotFound | Some k \<Rightarrow> Inr k)
            | StrItem k \<Rightarrow> Inr k
            | OtherItem \<Rightarrow> Inl InvalidItemForDelete) of
        Inl e \<Rightarrow> Inl e
      | Inr k \<Rightarrow>
          (case delete_mutations c md (Suc n) items of
             Inl e \<Rightarrow> Inl e
           | Inr ms \<Rightarrow>
               Inr (\<lparr>original = spread (map_of (state c) k),
                     modified = \<lparr>oid = Alloc n, props = tombstone\<rparr>,
                     changes = tombstone,
                     mkey = k,
                     metadata = md,
                     syncMetadata = meta_get (syncedMetadata c) k,
                     mtype = Delete\<rparr> # ms)))"

text \<open>The \<^verbatim>\<open>mutations.forEach\<close> of \<^verbatim>\<open>delete\<close> that drops object-to-key entries.\<close>

definition untrack ::
  "(key \<times> obj) list \<Rightarrow> (ref \<times> key) list \<Rightarrow> pending_mutation \<Rightarrow> (ref \<times> key) list" where
  "untrack st okm mutation =
     (case map_of st (mkey mutation) of
        None \<Rightarrow> okm
      | Some curValue \<Rightarrow> AList.delete (oid curValue) okm)"

definition delete :: "collection \<Rightarrow> item arg \<Rightarrow> fields option \<Rightarrow> error + collection" where
  "delete c items md =
     (if \<not> has_mutationFn (config c) then Inl MissingMutationFn
      else case delete_mutations c md (nextRef c) (itemsArray items) of
             Inl e \<Rightarrow> Inl e
           | Inr ms \<Rightarrow>
               Inr (applyTransaction
                      (c\<lparr>objectKeyMap := foldl (untrack (state c)) (objectKeyMap c) ms,
                         nextRef := nextRef c + length ms\<rparr>)
                      ms))"

section \<open>Readiness\<close>

text \<open>
  \<^verbatim>\<open>stateWhenReady\<close> and \<^verbatim>\<open>toArrayWhenReady\<close>: the result is the value the promise
  resolves to at once, or \<open>None\<close> when the resolver \<open>callback\<close> was registered instead.
\<close>

definition stateWhenReady :: "collection \<Rightarrow> nat \<Rightarrow> collection \<times> (key \<times> obj) list option" where
  "stateWhenReady c callback =
     (if length (state c) > 0 \<or> hasReceivedFirstCommit c then (c, Some (state c))
      else (onFirstCommit c callback, None))"

definition toArrayWhenReady :: "collection \<Rightarrow> nat \<Rightarrow> collection \<times> obj list option" where
  "toArrayWhenReady c callback =
     (if length (toArray c) > 0 \<or> hasReceivedFirstCommit c then (c, Some (toArray c))
      else (onFirstCommit c callback, None))"

section \<open>Runs of the collection\<close>

datatype event =
    Begin
  | Write change_message
  | Commit
  | OnFirstCommit nat
  | StateWhenReady nat
  | ToArrayWhenReady nat
  | InsertCall "obj arg" key_config "fields option"
  | UpdateCall "item arg option" "fields option" tracking
  | DeleteCall "item arg" "fields option"
  | SetTransactionState nat transaction_state
  | CommitPendingTransactions

text \<open>A call that throws leaves the collection as it was.\<close>

definition or_same :: "collection \<Rightarrow> error + collection \<Rightarrow> collection" where
  "or_same c r = (case r of Inl _ \<Rightarrow> c | Inr c' \<Rightarrow> c')"

fun step :: "collection \<Rightarrow> event \<Rightarrow> collection" where
  "step c Begin = or_same c (begin_sync c)"
| "step c (Write message) = or_same c (write_sync c message)"
| "step c Commit = or_same c (commit_sync c)"
| "step c (OnFirstCommit callback) = onFirstCommit c callback"
| "step c (StateWhenReady callback) = fst (stateWhenReady c callback)"
| "step c (ToArrayWhenReady callback) = fst (toArrayWhenReady c callback)"
| "step c (InsertCall data kc md) = or_same c (insert_records c data kc md)"
| "step c (UpdateCall items md tr) = or_same c (update c items md tr)"
| "step c (DeleteCall items md) = or_same c (delete c items md)"
| "step c (SetTransactionState i st) = setTransactionState c i st"
| "step c CommitPendingTransactions = commitPendingTransactions c"

definition run :: "collection \<Rightarrow> event list \<Rightarrow> collection" where
  "run c events = foldl step c events"

section \<open>The behaviour the specification describes\<close>

text \<open>
  Folding one change into a dataset, in the words of spec section 4.4: insert overwrites
  the key's value, update merges the fields onto the existing (or empty) value, delete
  removes the key. The dataset is seen as a map from keys to field lists.
\<close>

definition spec_fold_change :: "(key \<rightharpoonup> fields) \<Rightarrow> change_message \<Rightarrow> (key \<rightharpoonup> fields)" where
  "spec_fold_change m operation =
     (case msg_type operation of
        Insert \<Rightarrow> m(msg_key operation \<mapsto> props (msg_value operation))
      | Update \<Rightarrow>
          m(msg_key operation \<mapsto>
              assign (case m (msg_key operation) of None \<Rightarrow> [] | Some r \<Rightarrow> r)
                (props (msg_value operation)))
      | Delete \<Rightarrow> m(msg_key operation := None))"

definition spec_fold_metadata ::
  "(key \<rightharpoonup> fields option) \<Rightarrow> change_message \<Rightarrow> (key \<rightharpoonup> fields option)" where
  "spec_fold_metadata m operation =
     (case msg_type operation of
        Insert \<Rightarrow> m(msg_key operation \<mapsto> msg_metadata operation)
      | Update \<Rightarrow>
          m(msg_key operation \<mapsto>
              Some (assign (case m (msg_key operation) of Some (Some r) \<Rightarrow> r | _ \<Rightarrow> [])
                      (case msg_metadata operation of None \<Rightarrow> [] | Some f \<Rightarrow> f)))
      | Delete \<Rightarrow> m(msg_key operation := None))"

text \<open>
  The overlay in the words of spec section 3: SyncedDataset with every mutation of every
  non-terminal transaction applied in transaction order, then mutation order. The record
  of a mutation is its \<^verbatim>\<open>modified\<close> field, which is what the read view is given.
\<close>

definition spec_apply_mutation :: "(key \<rightharpoonup> fields) \<Rightarrow> pending_mutation \<Rightarrow> (key \<rightharpoonup> fields)" where
  "spec_apply_mutation m mutation =
     (case mtype mutation of
        Insert \<Rightarrow> m(mkey mutation \<mapsto> props (modified mutation))
      | Update \<Rightarrow>
          m(mkey mutation \<mapsto>
              assign (case m (mkey mutation) of None \<Rightarrow> [] | Some r \<Rightarrow> r)
                (props (modified mutation)))
      | Delete \<Rightarrow> m(mkey mutation := None))"

definition spec_overlay :: "(key \<rightharpoonup> fields) \<Rightarrow> transaction list \<Rightarrow> (key \<rightharpoonup> fields)" where
  "spec_overlay synced txs =
     foldl spec_apply_mutation synced
       (concat (map mutations
          (filter (\<lambda>t. tx_state t = Pending \<or> tx_state t = Persisting) txs)))"

text \<open>The last operation on a key, if any.\<close>

definition last_operation :: "key \<Rightarrow> change_message list \<Rightarrow> change_message option" where
  "last_operation k ops = find (\<lambda>operation. msg_key operation = k) (rev ops)"

text \<open>
  The contents of the read view that the \<^verbatim>\<open>Derived\<close> store computes from a
  synced dataset and a transaction list.
\<close>

definition overlay :: "(key \<times> obj) list \<Rightarrow> transaction list \<Rightarrow> key \<rightharpoonup> fields" where
  "overlay synced txs = view (fst (combine synced (optimisticOperations txs) 0))"

text \<open>
  What a key shows when only its last operation counts, an update being merged onto the
  synced value of the key.
\<close>

definition shown :: "(key \<times> obj) list \<Rightarrow> change_message list \<Rightarrow> key \<Rightarrow> fields option" where
  "shown synced ops k =
     (case last_operation k ops of
        None \<Rightarrow> view synced k
      | Some operation \<Rightarrow>
          (case msg_type operation of
             Insert \<Rightarrow> Some (props (msg_value operation))
           | Update \<Rightarrow>
               Some (assign (case view synced k of None \<Rightarrow> [] | Some r \<Rightarrow> r)
                       (props (msg_value operation)))
           | Delete \<Rightarrow> None))"

text \<open>The cached read view agrees with its two dependencies.\<close>

definition fresh :: "collection \<Rightarrow> bool" where
  "fresh c \<longleftrightarrow> view (derivedState c) = overlay (syncedData c) (transactions c)"

text \<open>
  From \<open>c\<close> to \<open>c'\<close> no first-commit callback was called and none was dropped, and
  the first commit is behind.
\<close>

definition settled :: "collection \<Rightarrow> collection \<Rightarrow> bool" where
  "settled c c' \<longleftrightarrow>
     hasReceivedFirstCommit c' \<and> fired c' = fired c \<and>
     set (onFirstCommitCallbacks c) \<subseteq> set (onFirstCommitCallbacks c')"

text \<open>The key that \<^verbatim>\<open>delete\<close> resolves an item to.\<close>

definition item_key :: "collection \<Rightarrow> item \<Rightarrow> key option" where
  "item_key c item =
     (case item of
        ObjItem w \<Rightarrow> map_of (objectKeyMap c) (oid w)
      | StrItem k \<Rightarrow> Some k
      | OtherItem \<Rightarrow> None)"

section \<open>Concrete collections\<close>

definition example_config :: collection_config where
  "example_config =
     \<lparr>has_sync = True, has_mutationFn = True, cfg_schema = None, getSyncMetadata = None,
      generateKey = (\<lambda>_. ''generated'')\<rparr>"

definition rec1 :: obj where
  "rec1 = \<lparr>oid = Ext 1, props = [(''a'', VNum 1), (''c'', VNum 3)]\<rparr>"

definition rec2 :: obj where
  "rec2 = \<lparr>oid = Ext 2, props = [(''a'', VNum 1)]\<rparr>"

definition sync_insert :: "key \<Rightarrow> obj \<Rightarrow> change_message" where
  "sync_insert k v = \<lparr>msg_type = Insert, msg_key = k, msg_value = v, msg_metadata = None\<rparr>"

text \<open>A pending local insert, then an open buffer with one change.\<close>

definition gated_example :: collection where
  "gated_example =
     run (initial example_config)
       [InsertCall (Single rec2) (KeyString ''k2'') None, Begin, Write (sync_insert ''k1'' rec1)]"

definition gated_committed :: collection where
  "gated_committed = run gated_example [Commit]"

text \<open>Two buffers opened one after the other, the first with one change.\<close>

definition open_example :: collection where
  "open_example = run (initial example_config) [Begin, Write (sync_insert ''k1'' rec1)]"

definition two_open_example :: collection where
  "two_open_example = run open_example [Begin]"

definition two_open_committed :: collection where
  "two_open_committed = run two_open_example [Commit]"

text \<open>A callback that sets the field \<open>b\<close> to 2 on every draft, as the tracker reports it.\<close>

definition set_b :: tracking where
  "set_b =
     \<lparr>withChangeTracking = (\<lambda>_. Some [(''b'', VNum 2)]),
      withArrayChangeTracking = map (\<lambda>_. Some [(''b'', VNum 2)])\<rparr>"

definition rec3 :: obj where
  "rec3 = \<lparr>oid = Ext 3, props = [(''d'', VStr ''x'')]\<rparr>"

text \<open>One synced record under \<open>k1\<close>.\<close>

definition synced_example :: collection where
  "synced_example =
     run (initial example_config) [Begin, Write (sync_insert ''k1'' rec1), Commit]"

text \<open>
  A local insert of another record under the synced key, then an update of the inserted
  record: two live operations on one key.
\<close>

definition shadow_example :: collection where
  "shadow_example =
     run synced_example
       [InsertCall (Single rec2) (KeyString ''k1'') None,
        UpdateCall (Some (Single (ObjItem rec2))) None set_b]"

text \<open>An insert, an update and a delete on three different keys, all still pending.\<close>

definition disjoint_events :: "event list" where
  "disjoint_events =
     [Begin, Write (sync_insert ''k1'' rec1), Write (sync_insert ''k3'' rec3), Commit,
      InsertCall (Single rec2) (KeyString ''k2'') None,
      UpdateCall (Some (Single (ObjItem rec1))) None set_b,
      DeleteCall (Single (StrItem ''k3'')) None]"

text \<open>An update whose transaction then fails.\<close>

definition failed_events :: "event list" where
  "failed_events =
     [Begin, Write (sync_insert ''k1'' rec1), Commit,
      UpdateCall (Some (Single (ObjItem rec1))) None set_b,
      SetTransactionState 0 Failed]"

text \<open>A callback that changes nothing.\<close>

definition no_change :: tracking where
  "no_change =
     \<lparr>withChangeTracking = (\<lambda>_. Some []),
      withArrayChangeTracking = map (\<lambda>_. None)\<rparr>"



text \<open>
  A record synced under \<open>k1\<close> and then updated by the sync source: the caller still
  holds the first version, \<open>rec1\<close>; the read view holds the merged one. Then the record
  is deleted through \<open>rec1\<close>, and updated through \<open>rec1\<close>.
\<close>

definition sync_update :: "key \<Rightarrow> obj \<Rightarrow> change_message" where
  "sync_update k v = \<lparr>msg_type = Update, msg_key = k, msg_value = v, msg_metadata = None\<rparr>"

definition patch :: obj where
  "patch = \<lparr>oid = Ext 4, props = [(''b'', VNum 5)]\<rparr>"

definition stale_before :: collection where
  "stale_before =
     run (initial example_config)
       [Begin, Write (sync_insert ''k1'' rec1), Commit,
        Begin, Write (sync_update ''k1'' patch), Commit]"

definition stale_deleted :: collection where
  "stale_deleted = run stale_before [DeleteCall (Single (ObjItem rec1)) None]"

definition stale_updated :: collection where
  "stale_updated = run stale_deleted [UpdateCall (Some (Single (ObjItem rec1))) None set_b]"

text \<open>A callback that sets the field \<open>d\<close> to 4 on every draft.\<close>

definition set_d :: tracking where
  "set_d =
     \<lparr>withChangeTracking = (\<lambda>_. Some [(''d'', VNum 4)]),
      withArrayChangeTracking = map (\<lambda>_. Some [(''d'', VNum 4)])\<rparr>"

text \<open>
  Two updates of the synced record, the first of which then fails; and the same run
  without the first update.
\<close>

definition leak_example :: collection where
  "leak_example =
     run synced_example
       [UpdateCall (Some (Single (ObjItem rec1))) None set_b,
        UpdateCall (Some (Single (ObjItem rec1))) None set_d,
        SetTransactionState 0 Failed]"

definition clean_example :: collection where
  "clean_example = run synced_example [UpdateCall (Some (Single (ObjItem rec1))) None set_d]"






section \<open>Evaluation on concrete input\<close>

lemmas eval_defs =
  run_def initial_def example_config_def rec1_def rec2_def sync_insert_def
  or_same_def begin_sync_def write_sync_def commit_sync_def commitPendingTransactions_def
  may_merge_def isNotTerminalState_def fire_first_commit_def recompute_def combine_def
  apply_operation_def optimisticOperations_def message_of_def live_def set_add_def track_def
  merge_buffer_def merge_operation_def set_data_def set_metadata_def meta_get_def
  meta_spread_def spread_def assign_def insert_records_def insert_keys_def itemsArray_def isArray_def
  applyTransaction_def set_transactions_def validateData_def check_def state_def toArray_def
  onFirstCommit_def setTransactionState_def update_def delete_def untrack_def tombstone_def
  stateWhenReady_def toArrayWhenReady_def view_def Let_def enumerate_eq_zip

section \<open>The merge gate\<close>

lemma may_merge_iff:
  "may_merge c \<longleftrightarrow> (\<forall>t \<in> set (transactions c). tx_state t = Completed \<or> tx_state t = Failed)"
  by (auto simp: may_merge_def list_ex_iff isNotTerminalState_def)

lemma not_may_merge: "\<not> may_merge c \<Longrightarrow> commitPendingTransactions c = c"
  by (simp add: commitPendingTransactions_def)

lemma commit_sync_Inr:
  assumes "commit_sync c = Inr c'"
  shows "pendingSyncedTransactions c \<noteq> []"
    and "\<not> committed (last (pendingSyncedTransactions c))"
    and "c' = commitPendingTransactions
                (c\<lparr>pendingSyncedTransactions :=
                     butlast (pendingSyncedTransactions c) @
                     [(last (pendingSyncedTransactions c))\<lparr>committed := True\<rparr>]\<rparr>)"
  using assms
  by (cases "pendingSyncedTransactions c" rule: rev_cases;
      simp add: commit_sync_def split: if_splits)+

text \<open>
  C1. A \<^verbatim>\<open>commit()\<close> that the sync source delivers (and that does not throw) merges only
  if there is no transaction or every transaction is completed or failed. If some
  transaction is neither, SyncedDataset and SyncedMetadata are as before and every buffer
  is still queued with its changes, the last one now marked committed. Conversely, a
  commit after which a store differs or the queue is empty was not gated.
\<close>

theorem commit_merge_gated:
  assumes "commit_sync c = Inr c'"
  shows "((\<exists>t \<in> set (transactions c). tx_state t \<noteq> Completed \<and> tx_state t \<noteq> Failed) \<longrightarrow>
            syncedData c' = syncedData c \<and> syncedMetadata c' = syncedMetadata c \<and>
            pendingSyncedTransactions c' =
              butlast (pendingSyncedTransactions c) @
              [(last (pendingSyncedTransactions c))\<lparr>committed := True\<rparr>] \<and>
            map operations (pendingSyncedTransactions c') =
              map operations (pendingSyncedTransactions c)) \<and>
         ((syncedData c' \<noteq> syncedData c \<or> syncedMetadata c' \<noteq> syncedMetadata c \<or>
           pendingSyncedTransactions c' = []) \<longrightarrow>
            transactions c = [] \<or>
            (\<forall>t \<in> set (transactions c). tx_state t = Completed \<or> tx_state t = Failed))"
proof -
  let ?ps = "pendingSyncedTransactions c"
  let ?m = "c\<lparr>pendingSyncedTransactions := butlast ?ps @ [(last ?ps)\<lparr>committed := True\<rparr>]\<rparr>"
  note r = commit_sync_Inr [OF assms]
  have ops: "map operations (butlast ?ps @ [(last ?ps)\<lparr>committed := True\<rparr>]) = map operations ?ps"
    using r(1) by (cases ?ps rule: rev_cases) simp_all
  have gate: "may_merge ?m = may_merge c"
    by (simp add: may_merge_def)
  have closed: "\<not> may_merge c \<Longrightarrow> c' = ?m"
    using r(3) gate by (simp add: not_may_merge)
  show ?thesis
  proof (intro conjI impI)
    assume "\<exists>t \<in> set (transactions c). tx_state t \<noteq> Completed \<and> tx_state t \<noteq> Failed"
    then have n: "\<not> may_merge c" by (auto simp: may_merge_iff)
    show "syncedData c' = syncedData c" "syncedMetadata c' = syncedMetadata c"
      "pendingSyncedTransactions c' = butlast ?ps @ [(last ?ps)\<lparr>committed := True\<rparr>]"
      "map operations (pendingSyncedTransactions c') = map operations ?ps"
      using closed [OF n] ops by simp_all
  next
    assume a: "syncedData c' \<noteq> syncedData c \<or> syncedMetadata c' \<noteq> syncedMetadata c \<or>
           pendingSyncedTransactions c' = []"
    have "may_merge c"
    proof (rule ccontr)
      assume n: "\<not> may_merge c"
      from closed [OF n] a show False by simp
    qed
    then show "transactions c = [] \<or>
            (\<forall>t \<in> set (transactions c). tx_state t = Completed \<or> tx_state t = Failed)"
      by (simp add: may_merge_iff)
  qed
qed

theorem commit_merge_gated_witness:
  "commit_sync gated_example = Inr gated_committed \<and>
   list_ex (\<lambda>t. tx_state t \<noteq> Completed \<and> tx_state t \<noteq> Failed) (transactions gated_example) \<and>
   syncedData gated_committed = syncedData gated_example \<and>
   syncedMetadata gated_committed = syncedMetadata gated_example \<and>
   map operations (pendingSyncedTransactions gated_committed) =
     map operations (pendingSyncedTransactions gated_example)"
proof -
  have h: "commit_sync gated_example = Inr gated_committed"
    by (simp add: gated_committed_def gated_example_def eval_defs)
  have l: "list_ex (\<lambda>t. tx_state t \<noteq> Completed \<and> tx_state t \<noteq> Failed) (transactions gated_example)"
    by (simp add: gated_example_def eval_defs)
  then have live: "\<exists>t \<in> set (transactions gated_example). tx_state t \<noteq> Completed \<and> tx_state t \<noteq> Failed"
    by (simp add: list_ex_iff)
  from commit_merge_gated [OF h] live l h show ?thesis
    by blast
qed

section \<open>The ingestion callbacks\<close>

text \<open>
  C5, as the spec states it, fails: \<^verbatim>\<open>begin()\<close> called while a buffer is open does not
  throw; it returns with two open buffers queued.
\<close>

theorem begin_with_open_buffer_counterexample:
  "map committed (pendingSyncedTransactions open_example) = [False] \<and>
   begin_sync open_example = Inr two_open_example \<and>
   map committed (pendingSyncedTransactions two_open_example) = [False, False]"
  by (simp add: two_open_example_def open_example_def eval_defs)

text \<open>
  C5, amended. \<^verbatim>\<open>begin()\<close> never throws: it appends a new open, empty buffer to the
  queue, whatever the queue holds. Only \<^verbatim>\<open>write\<close> and \<^verbatim>\<open>commit\<close> throw, and they
  do so exactly when the queue is empty or its last buffer is already committed.
\<close>

theorem begin_always_opens_buffer:
  "begin_sync c =
     Inr (c\<lparr>pendingSyncedTransactions :=
              pendingSyncedTransactions c @ [\<lparr>committed = False, operations = []\<rparr>]\<rparr>) \<and>
   isl (write_sync c message) =
     (pendingSyncedTransactions c = [] \<or> committed (last (pendingSyncedTransactions c))) \<and>
   isl (commit_sync c) =
     (pendingSyncedTransactions c = [] \<or> committed (last (pendingSyncedTransactions c)))"
  by (cases "pendingSyncedTransactions c" rule: rev_cases)
     (simp_all add: begin_sync_def write_sync_def commit_sync_def)

section \<open>The merge\<close>

lemma merge_operation_fields:
  "config (fst (merge_operation acc x)) = config (fst acc)"
  "transactions (fst (merge_operation acc x)) = transactions (fst acc)"
  "pendingSyncedTransactions (fst (merge_operation acc x)) = pendingSyncedTransactions (fst acc)"
  "hasReceivedFirstCommit (fst (merge_operation acc x)) = hasReceivedFirstCommit (fst acc)"
  "objectKeyMap (fst (merge_operation acc x)) = objectKeyMap (fst acc)"
  "onFirstCommitCallbacks (fst (merge_operation acc x)) = onFirstCommitCallbacks (fst acc)"
  "derivedState (fst (merge_operation acc x)) = derivedState (fst acc)"
  "fired (fst (merge_operation acc x)) = fired (fst acc)"
  by (simp_all add: merge_operation_def Let_def split: prod.splits)

lemma merge_operations_fields:
  "config (fst (foldl merge_operation acc xs)) = config (fst acc)"
  "transactions (fst (foldl merge_operation acc xs)) = transactions (fst acc)"
  "pendingSyncedTransactions (fst (foldl merge_operation acc xs)) = pendingSyncedTransactions (fst acc)"
  "hasReceivedFirstCommit (fst (foldl merge_operation acc xs)) = hasReceivedFirstCommit (fst acc)"
  "objectKeyMap (fst (foldl merge_operation acc xs)) = objectKeyMap (fst acc)"
  "onFirstCommitCallbacks (fst (foldl merge_operation acc xs)) = onFirstCommitCallbacks (fst acc)"
  "derivedState (fst (foldl merge_operation acc xs)) = derivedState (fst acc)"
  "fired (fst (foldl merge_operation acc xs)) = fired (fst acc)"
  by (induction xs arbitrary: acc; simp add: merge_operation_fields)+

lemma merge_buffers_concat:
  "foldl merge_buffer acc bufs = foldl merge_operation acc (concat (map operations bufs))"
  by (induction bufs arbitrary: acc) (simp_all add: merge_buffer_def)

lemma view_set_data:
  "view (fst (set_data (sd, n) x)) = spec_fold_change (view sd) x"
  by (cases "msg_type x")
     (auto simp: set_data_def spec_fold_change_def view_def update_conv' delete_conv' spread_def
           split: option.splits)

lemma map_of_set_metadata:
  "map_of (set_metadata md x) = spec_fold_metadata (map_of md) x"
  by (cases "msg_type x")
     (auto simp: set_metadata_def spec_fold_metadata_def update_conv' delete_conv'
                 meta_get_def meta_spread_def
           split: option.splits)

lemma stores_merge_operation:
  "syncedData (fst (merge_operation (c, ks) x)) = fst (set_data (syncedData c, nextRef c) x)"
  "syncedMetadata (fst (merge_operation (c, ks) x)) = set_metadata (syncedMetadata c) x"
  by (simp_all add: merge_operation_def Let_def)

lemma view_merge_operations:
  "view (syncedData (fst (foldl merge_operation acc xs))) =
     foldl spec_fold_change (view (syncedData (fst acc))) xs"
proof (induction xs arbitrary: acc)
  case Nil
  show ?case by simp
next
  case (Cons x xs)
  obtain c ks where acc: "acc = (c, ks)" by (cases acc)
  show ?case
    by (simp add: Cons.IH acc stores_merge_operation view_set_data)
qed

lemma metadata_merge_operations:
  "map_of (syncedMetadata (fst (foldl merge_operation acc xs))) =
     foldl spec_fold_metadata (map_of (syncedMetadata (fst acc))) xs"
proof (induction xs arbitrary: acc)
  case Nil
  show ?case by simp
next
  case (Cons x xs)
  obtain c ks where acc: "acc = (c, ks)" by (cases acc)
  show ?case
    by (simp add: Cons.IH acc stores_merge_operation map_of_set_metadata)
qed

lemma recompute_fields:
  "syncedData (recompute c) = syncedData c"
  "syncedMetadata (recompute c) = syncedMetadata c"
  "pendingSyncedTransactions (recompute c) = pendingSyncedTransactions c"
  "transactions (recompute c) = transactions c"
  "hasReceivedFirstCommit (recompute c) = hasReceivedFirstCommit c"
  "onFirstCommitCallbacks (recompute c) = onFirstCommitCallbacks c"
  "fired (recompute c) = fired c"
  "config (recompute c) = config c"
  by (simp_all add: recompute_def Let_def)

lemma fire_first_commit_fields:
  "syncedData (fire_first_commit c) = syncedData c"
  "syncedMetadata (fire_first_commit c) = syncedMetadata c"
  "pendingSyncedTransactions (fire_first_commit c) = pendingSyncedTransactions c"
  "transactions (fire_first_commit c) = transactions c"
  "config (fire_first_commit c) = config c"
  "derivedState (fire_first_commit c) = derivedState c"
  "objectKeyMap (fire_first_commit c) = objectKeyMap c"
  "nextRef (fire_first_commit c) = nextRef c"
  by (simp_all add: fire_first_commit_def)

lemma merged_stores:
  assumes "may_merge c"
  shows "syncedData (commitPendingTransactions c) =
           syncedData (fst (foldl merge_operation (c, [])
             (concat (map operations (pendingSyncedTransactions c)))))"
    and "syncedMetadata (commitPendingTransactions c) =
           syncedMetadata (fst (foldl merge_operation (c, [])
             (concat (map operations (pendingSyncedTransactions c)))))"
    and "pendingSyncedTransactions (commitPendingTransactions c) = []"
  using assms
  by (simp_all add: commitPendingTransactions_def Let_def fire_first_commit_fields
        recompute_fields merge_buffers_concat)

text \<open>
  C6, as the spec states it, fails: a buffer that was never committed is folded too. After
  \<^verbatim>\<open>begin, write, begin\<close> the queue holds two open buffers; \<^verbatim>\<open>commit\<close> marks the
  second, empty one, and the merge folds the insert of the first and empties the queue.
\<close>

theorem merge_folds_uncommitted_counterexample:
  "pendingSyncedTransactions two_open_example =
     [\<lparr>committed = False, operations = [sync_insert ''k1'' rec1]\<rparr>,
      \<lparr>committed = False, operations = []\<rparr>] \<and>
   commit_sync two_open_example = Inr two_open_committed \<and>
   map_of (syncedData two_open_committed) ''k1'' = Some rec1 \<and>
   pendingSyncedTransactions two_open_committed = []"
  by (simp add: two_open_committed_def two_open_example_def open_example_def eval_defs)

text \<open>
  C6, amended. When a merge attempt may proceed (no transaction, or all of them completed
  or failed), the changes of every queued buffer, committed or not, are folded into
  SyncedDataset and SyncedMetadata in buffer order, then in the order of each buffer
  (insert overwrites the key's value, update merges the fields onto the existing or empty
  value, delete removes the key), and the queue is emptied.
\<close>

theorem merge_folds_all_queued_buffers:
  assumes "transactions c = [] \<or>
           (\<forall>t \<in> set (transactions c). tx_state t = Completed \<or> tx_state t = Failed)"
  shows "view (syncedData (commitPendingTransactions c)) =
           foldl spec_fold_change (view (syncedData c))
             (concat (map operations (pendingSyncedTransactions c))) \<and>
         map_of (syncedMetadata (commitPendingTransactions c)) =
           foldl spec_fold_metadata (map_of (syncedMetadata c))
             (concat (map operations (pendingSyncedTransactions c))) \<and>
         pendingSyncedTransactions (commitPendingTransactions c) = []"
proof -
  have m: "may_merge c"
    using assms by (auto simp: may_merge_iff)
  show ?thesis
    by (simp add: merged_stores [OF m] view_merge_operations metadata_merge_operations)
qed

theorem merge_folds_all_queued_buffers_witness:
  "(transactions two_open_example = [] \<or>
    (\<forall>t \<in> set (transactions two_open_example). tx_state t = Completed \<or> tx_state t = Failed)) \<and>
   view (syncedData (commitPendingTransactions two_open_example)) =
     foldl spec_fold_change (view (syncedData two_open_example))
       (concat (map operations (pendingSyncedTransactions two_open_example))) \<and>
   map_of (syncedMetadata (commitPendingTransactions two_open_example)) =
     foldl spec_fold_metadata (map_of (syncedMetadata two_open_example))
       (concat (map operations (pendingSyncedTransactions two_open_example))) \<and>
   pendingSyncedTransactions (commitPendingTransactions two_open_example) = []"
proof -
  have h: "transactions two_open_example = []"
    by (simp add: two_open_example_def open_example_def eval_defs)
  from merge_folds_all_queued_buffers [of two_open_example] h show ?thesis
    by blast
qed

section \<open>The read view\<close>

lemma view_apply_operation:
  "view (fst (apply_operation synced (cmb, n) x)) k =
     (if msg_key x = k
      then (case msg_type x of
              Insert \<Rightarrow> Some (props (msg_value x))
            | Update \<Rightarrow> Some (assign (case view synced k of None \<Rightarrow> [] | Some r \<Rightarrow> r)
                                 (props (msg_value x)))
            | Delete \<Rightarrow> None)
      else view cmb k)"
  by (cases "msg_type x")
     (auto simp: apply_operation_def view_def update_conv' delete_conv' spread_def
           split: option.splits)

lemma view_foldl_apply_operation:
  "view (fst (foldl (apply_operation synced) (cmb, n) ops)) k =
     (case last_operation k ops of
        None \<Rightarrow> view cmb k
      | Some operation \<Rightarrow>
          (case msg_type operation of
             Insert \<Rightarrow> Some (props (msg_value operation))
           | Update \<Rightarrow>
               Some (assign (case view synced k of None \<Rightarrow> [] | Some r \<Rightarrow> r)
                       (props (msg_value operation)))
           | Delete \<Rightarrow> None))"
proof (induction ops rule: rev_induct)
  case Nil
  show ?case by (simp add: last_operation_def)
next
  case (snoc x xs)
  obtain cmb' n' where r: "foldl (apply_operation synced) (cmb, n) xs = (cmb', n')"
    by (cases "foldl (apply_operation synced) (cmb, n) xs")
  from snoc r have ih: "view cmb' k =
     (case last_operation k xs of
        None \<Rightarrow> view cmb k
      | Some operation \<Rightarrow>
          (case msg_type operation of
             Insert \<Rightarrow> Some (props (msg_value operation))
           | Update \<Rightarrow>
               Some (assign (case view synced k of None \<Rightarrow> [] | Some r \<Rightarrow> r)
                       (props (msg_value operation)))
           | Delete \<Rightarrow> None))"
    by simp
  show ?case
    by (simp add: r view_apply_operation ih last_operation_def)
qed

lemma view_combine: "view (fst (combine synced ops n)) k = shown synced ops k"
  by (simp add: combine_def shown_def view_foldl_apply_operation)

lemma view_combine_any: "view (fst (combine synced ops n)) = view (fst (combine synced ops m))"
  by (rule ext) (simp add: view_combine)

lemma spec_fold_change_at:
  "spec_fold_change m x k =
     (if msg_key x = k
      then (case msg_type x of
              Insert \<Rightarrow> Some (props (msg_value x))
            | Update \<Rightarrow> Some (assign (case m k of None \<Rightarrow> [] | Some r \<Rightarrow> r)
                                 (props (msg_value x)))
            | Delete \<Rightarrow> None)
      else m k)"
  by (cases "msg_type x") (auto simp: spec_fold_change_def)

lemma spec_fold_snoc:
  "foldl spec_fold_change m (xs @ [x]) k =
     (if msg_key x = k
      then (case msg_type x of
              Insert \<Rightarrow> Some (props (msg_value x))
            | Update \<Rightarrow>
                Some (assign (case foldl spec_fold_change m xs k of None \<Rightarrow> [] | Some r \<Rightarrow> r)
                        (props (msg_value x)))
            | Delete \<Rightarrow> None)
      else foldl spec_fold_change m xs k)"
proof -
  have "foldl spec_fold_change m (xs @ [x]) k = spec_fold_change (foldl spec_fold_change m xs) x k"
    by simp
  also have "\<dots> = (if msg_key x = k
      then (case msg_type x of
              Insert \<Rightarrow> Some (props (msg_value x))
            | Update \<Rightarrow>
                Some (assign (case foldl spec_fold_change m xs k of None \<Rightarrow> [] | Some r \<Rightarrow> r)
                        (props (msg_value x)))
            | Delete \<Rightarrow> None)
      else foldl spec_fold_change m xs k)"
    by (rule spec_fold_change_at)
  finally show ?thesis .
qed

lemma spec_fold_other:
  "k \<notin> set (map msg_key ops) \<Longrightarrow> foldl spec_fold_change m ops k = m k"
proof (induction ops rule: rev_induct)
  case Nil
  show ?case by simp
next
  case (snoc x xs)
  then have "msg_key x \<noteq> k" and "foldl spec_fold_change m xs k = m k"
    by auto
  then show ?case
    by (simp only: spec_fold_snoc if_False)
qed

lemma shown_snoc:
  "shown synced (xs @ [x]) k =
     (if msg_key x = k
      then (case msg_type x of
              Insert \<Rightarrow> Some (props (msg_value x))
            | Update \<Rightarrow> Some (assign (case view synced k of None \<Rightarrow> [] | Some r \<Rightarrow> r)
                                 (props (msg_value x)))
            | Delete \<Rightarrow> None)
      else shown synced xs k)"
  by (simp add: shown_def last_operation_def)

lemma spec_fold_distinct:
  "distinct (map msg_key ops) \<Longrightarrow> foldl spec_fold_change (view synced) ops k = shown synced ops k"
proof (induction ops rule: rev_induct)
  case Nil
  show ?case by (simp add: shown_def last_operation_def)
next
  case (snoc x xs)
  then have d: "distinct (map msg_key xs)" and nx: "msg_key x \<notin> set (map msg_key xs)"
    by simp_all
  show ?case
  proof (cases "msg_key x = k")
    case True
    with nx have "foldl spec_fold_change (view synced) xs k = view synced k"
      by (simp add: spec_fold_other)
    with True show ?thesis
      by (simp only: spec_fold_snoc shown_snoc refl if_True)
  next
    case False
    with snoc.IH [OF d] show ?thesis
      by (simp only: spec_fold_snoc shown_snoc if_False)
  qed
qed

lemma spec_apply_message: "spec_apply_mutation m mu = spec_fold_change m (message_of mu)"
  by (cases "mtype mu") (simp_all add: spec_apply_mutation_def spec_fold_change_def message_of_def)

lemma foldl_spec_apply:
  "foldl spec_apply_mutation m mus = foldl spec_fold_change m (map message_of mus)"
  by (induction mus arbitrary: m) (simp_all add: spec_apply_message)

lemma live_iff: "live t \<longleftrightarrow> tx_state t = Pending \<or> tx_state t = Persisting"
  by (cases "tx_state t") (simp_all add: live_def)

lemma spec_overlay_ops:
  "spec_overlay m txs = foldl spec_fold_change m (optimisticOperations txs)"
proof -
  have "filter (\<lambda>t. tx_state t = Pending \<or> tx_state t = Persisting) txs = filter live txs"
    by (simp add: live_iff [abs_def])
  then show ?thesis
    by (simp add: spec_overlay_def foldl_spec_apply optimisticOperations_def map_concat comp_def)
qed

lemma overlay_live: "overlay synced (filter live txs) = overlay synced txs"
  by (simp add: overlay_def optimisticOperations_def)

section \<open>The read view is up to date in every run\<close>

lemma fresh_recompute: "fresh (recompute c)"
proof -
  have "view (derivedState (recompute c)) =
          view (fst (combine (syncedData c) (optimisticOperations (transactions c)) (nextRef c)))"
    by (simp add: recompute_def Let_def)
  then show ?thesis
    by (simp add: fresh_def overlay_def recompute_fields view_combine_any [of _ _ "nextRef c" 0])
qed

lemma fresh_same:
  "fresh c \<Longrightarrow> syncedData c' = syncedData c \<Longrightarrow> transactions c' = transactions c \<Longrightarrow>
     derivedState c' = derivedState c \<Longrightarrow> fresh c'"
  by (simp add: fresh_def)

lemma fresh_batch:
  "fresh c \<Longrightarrow>
     fresh (if ops = [] then fst (foldl merge_operation (c, []) ops)
            else recompute (fst (foldl merge_operation (c, []) ops)))"
  by (cases ops) (simp_all only: foldl_Nil fst_conv refl if_True list.distinct if_False fresh_recompute)

lemma commitPendingTransactions_merge:
  assumes "may_merge c"
  shows "\<exists>okm. commitPendingTransactions c =
           fire_first_commit
             ((if concat (map operations (pendingSyncedTransactions c)) = []
               then fst (foldl merge_operation (c, [])
                      (concat (map operations (pendingSyncedTransactions c))))
               else recompute (fst (foldl merge_operation (c, [])
                      (concat (map operations (pendingSyncedTransactions c))))))
              \<lparr>objectKeyMap := okm, pendingSyncedTransactions := []\<rparr>)"
  using assms
  by (simp only: commitPendingTransactions_def Let_def if_True merge_buffers_concat) blast

lemma fresh_commitPendingTransactions:
  assumes "fresh c"
  shows "fresh (commitPendingTransactions c)"
proof (cases "may_merge c")
  case False
  with assms show ?thesis by (simp add: not_may_merge)
next
  case True
  define c1 where "c1 =
    (if concat (map operations (pendingSyncedTransactions c)) = []
     then fst (foldl merge_operation (c, []) (concat (map operations (pendingSyncedTransactions c))))
     else recompute (fst (foldl merge_operation (c, [])
            (concat (map operations (pendingSyncedTransactions c))))))"
  have c1: "fresh c1"
    unfolding c1_def using assms by (rule fresh_batch)
  from commitPendingTransactions_merge [OF True] obtain okm where
    eq: "commitPendingTransactions c =
           fire_first_commit (c1\<lparr>objectKeyMap := okm, pendingSyncedTransactions := []\<rparr>)"
    unfolding c1_def by blast
  have "syncedData (commitPendingTransactions c) = syncedData c1"
    "transactions (commitPendingTransactions c) = transactions c1"
    "derivedState (commitPendingTransactions c) = derivedState c1"
    by (simp_all add: eq fire_first_commit_fields)
  with c1 show ?thesis by (rule fresh_same)
qed

lemma fresh_set_transactions: "fresh (set_transactions c txs)"
  by (simp add: set_transactions_def fresh_commitPendingTransactions fresh_recompute)

lemma fresh_or_same:
  "fresh c \<Longrightarrow> (\<And>c'. r = Inr c' \<Longrightarrow> fresh c') \<Longrightarrow> fresh (or_same c r)"
  by (cases r) (simp_all add: or_same_def)

lemma fresh_step: "fresh c \<Longrightarrow> fresh (step c ev)"
proof (cases ev)
  case Begin
  assume "fresh c"
  then show ?thesis
    by (simp add: Begin or_same_def begin_sync_def fresh_def)
next
  case (Write message)
  assume "fresh c"
  then show ?thesis
    by (auto simp: Write or_same_def write_sync_def fresh_def split: list.splits)
next
  case Commit
  assume f: "fresh c"
  show ?thesis
    unfolding Commit step.simps
  proof (rule fresh_or_same [OF f])
    fix c' assume "commit_sync c = Inr c'"
    then have c': "c' = commitPendingTransactions
                (c\<lparr>pendingSyncedTransactions :=
                     butlast (pendingSyncedTransactions c) @
                     [(last (pendingSyncedTransactions c))\<lparr>committed := True\<rparr>]\<rparr>)"
      by (rule commit_sync_Inr(3))
    from f have "fresh (c\<lparr>pendingSyncedTransactions :=
                     butlast (pendingSyncedTransactions c) @
                     [(last (pendingSyncedTransactions c))\<lparr>committed := True\<rparr>]\<rparr>)"
      by (simp add: fresh_def)
    then show "fresh c'"
      unfolding c' by (rule fresh_commitPendingTransactions)
  qed
next
  case (OnFirstCommit callback)
  assume "fresh c"
  then show ?thesis by (simp add: OnFirstCommit onFirstCommit_def fresh_def)
next
  case (StateWhenReady callback)
  assume "fresh c"
  then show ?thesis by (simp add: StateWhenReady stateWhenReady_def onFirstCommit_def fresh_def)
next
  case (ToArrayWhenReady callback)
  assume "fresh c"
  then show ?thesis by (simp add: ToArrayWhenReady toArrayWhenReady_def onFirstCommit_def fresh_def)
next
  case (InsertCall data kc md)
  assume f: "fresh c"
  show ?thesis
    unfolding InsertCall step.simps
    by (rule fresh_or_same [OF f])
       (auto simp: insert_records_def applyTransaction_def fresh_set_transactions
             split: if_splits sum.splits)
next
  case (UpdateCall items md tr)
  assume f: "fresh c"
  show ?thesis
    unfolding UpdateCall step.simps
    by (rule fresh_or_same [OF f])
       (auto simp: update_def Let_def applyTransaction_def fresh_set_transactions
             split: if_splits sum.splits option.splits)
next
  case (DeleteCall items md)
  assume f: "fresh c"
  show ?thesis
    unfolding DeleteCall step.simps
    by (rule fresh_or_same [OF f])
       (auto simp: delete_def applyTransaction_def fresh_set_transactions
             split: if_splits sum.splits)
next
  case (SetTransactionState i st)
  assume "fresh c"
  then show ?thesis
    by (simp add: SetTransactionState setTransactionState_def fresh_set_transactions)
next
  case CommitPendingTransactions
  assume "fresh c"
  then show ?thesis
    by (simp add: CommitPendingTransactions fresh_commitPendingTransactions)
qed

lemma fresh_run: "fresh c \<Longrightarrow> fresh (run c events)"
  unfolding run_def by (induction events arbitrary: c) (simp_all add: fresh_step)

lemma fresh_initial: "fresh (initial cfg)"
  by (simp add: fresh_def initial_def overlay_def optimisticOperations_def combine_def)

lemma fresh_reachable: "fresh (run (initial cfg) events)"
  by (rule fresh_run [OF fresh_initial])

lemma view_state_reachable:
  "view (state (run (initial cfg) events)) =
     overlay (syncedData (run (initial cfg) events)) (transactions (run (initial cfg) events))"
  using fresh_reachable [of cfg events] by (simp add: fresh_def state_def)

lemma overlay_shown: "overlay synced txs k = shown synced (optimisticOperations txs) k"
  by (simp add: overlay_def view_combine)

lemma overlay_distinct:
  assumes "distinct (map msg_key (optimisticOperations txs))"
  shows "overlay synced txs = spec_overlay (view synced) txs"
proof (rule ext)
  fix k
  show "overlay synced txs k = spec_overlay (view synced) txs k"
    by (simp only: overlay_shown spec_overlay_ops spec_fold_distinct [OF assms])
qed

lemma operations_of_live:
  "x \<in> set (optimisticOperations txs) \<Longrightarrow>
     \<exists>t \<in> set txs. tx_state t \<noteq> Completed \<and> tx_state t \<noteq> Failed \<and>
        x \<in> message_of ` set (mutations t)"
  by (auto simp: optimisticOperations_def live_def)

lemma overlay_all_terminal:
  assumes "\<forall>t \<in> set txs. tx_state t = Completed \<or> tx_state t = Failed"
  shows "overlay synced txs = view synced"
proof -
  from assms have "filter live txs = []"
    by (auto simp: filter_empty_conv live_def)
  then show ?thesis
    by (simp add: overlay_def optimisticOperations_def combine_def)
qed

text \<open>
  C2, as the spec states it, fails. After a sync of \<open>k1\<close> with the fields \<open>a\<close> and \<open>c\<close>,
  a local insert under \<open>k1\<close> of a record with the field \<open>a\<close> only and an update of that
  record setting \<open>b\<close>, applying the two pending mutations in order gives \<open>a, b\<close>;
  the read view shows \<open>a, c, b\<close>, because the update is merged onto the synced record
  of the key and not onto what the insert left there.
\<close>

theorem overlay_sequential_counterexample:
  "view (state shadow_example) ''k1'' =
     Some [(''a'', VNum 1), (''c'', VNum 3), (''b'', VNum 2)] \<and>
   spec_overlay (view (syncedData shadow_example)) (transactions shadow_example) ''k1'' =
     Some [(''a'', VNum 1), (''b'', VNum 2)]"
  by (simp add: shadow_example_def synced_example_def set_b_def spec_overlay_def
        spec_apply_mutation_def update_mutations.simps update_keys.simps
        insert_mutations.simps eval_defs)

text \<open>
  C2, amended. In every state a run of the collection reaches, each key of the read view
  shows its last live operation in transaction order, then mutation order: the record of
  an insert, the record of an update merged onto the key's SyncedDataset record (or onto
  the empty record), nothing after a delete, and the SyncedDataset record when no live
  operation touches the key; \<^verbatim>\<open>toArray\<close> lists the values of \<^verbatim>\<open>state\<close>. When the
  live operations are on pairwise different keys, this is SyncedDataset with every
  mutation of every non-terminal transaction applied in order.
\<close>

theorem overlay_last_operation_wins:
  assumes "c = run (initial cfg) events"
    and "ops = optimisticOperations (transactions c)"
  shows "(\<forall>k. view (state c) k = shown (syncedData c) ops k) \<and>
         toArray c = map snd (state c) \<and>
         (distinct (map msg_key ops) \<longrightarrow>
            view (state c) = spec_overlay (view (syncedData c)) (transactions c))"
proof (intro conjI allI impI)
  fix k
  show "view (state c) k = shown (syncedData c) ops k"
    by (simp only: assms view_state_reachable overlay_shown)
next
  show "toArray c = map snd (state c)"
    by (simp add: toArray_def state_def)
next
  assume "distinct (map msg_key ops)"
  then have "distinct (map msg_key (optimisticOperations (transactions c)))"
    by (simp only: assms)
  then have "overlay (syncedData c) (transactions c) = spec_overlay (view (syncedData c)) (transactions c)"
    by (rule overlay_distinct)
  then show "view (state c) = spec_overlay (view (syncedData c)) (transactions c)"
    by (simp only: assms(1) view_state_reachable)
qed

theorem overlay_last_operation_wins_witness:
  "distinct (map msg_key
     (optimisticOperations (transactions (run (initial example_config) disjoint_events)))) \<and>
   view (state (run (initial example_config) disjoint_events)) =
     spec_overlay (view (syncedData (run (initial example_config) disjoint_events)))
       (transactions (run (initial example_config) disjoint_events))"
proof -
  have d: "distinct (map msg_key
     (optimisticOperations (transactions (run (initial example_config) disjoint_events))))"
    by (simp add: disjoint_events_def set_b_def rec3_def update_mutations.simps
          update_keys.simps insert_mutations.simps delete_mutations.simps eval_defs)
  from overlay_last_operation_wins [OF refl refl, of example_config disjoint_events] d
  show ?thesis by blast
qed

text \<open>
  C3, as the spec states it, fails: the effect of a failed transaction is not always
  retracted. \<^verbatim>\<open>update\<close> builds \<^verbatim>\<open>modified\<close> from the read view at the time of
  the call, so a second update of a record copies what a first, still pending update
  wrote. Here the first update sets \<open>b\<close>, the second sets \<open>d\<close>, and the first
  transaction fails: the read view still shows \<open>b\<close>, which neither SyncedDataset nor
  the same run without the first update has.
\<close>

theorem failed_update_leaks_counterexample:
  "map tx_state (transactions leak_example) = [Failed, Pending] \<and>
   view (syncedData leak_example) ''k1'' = Some [(''a'', VNum 1), (''c'', VNum 3)] \<and>
   view (state leak_example) ''k1'' =
     Some [(''a'', VNum 1), (''c'', VNum 3), (''b'', VNum 2), (''d'', VNum 4)] \<and>
   view (state clean_example) ''k1'' =
     Some [(''a'', VNum 1), (''c'', VNum 3), (''d'', VNum 4)]"
  by (simp add: leak_example_def clean_example_def synced_example_def set_b_def set_d_def
        update_mutations.simps update_keys.simps eval_defs)

text \<open>
  C3, amended. In every state a run of the collection reaches, no mutation of a completed
  or failed transaction is applied when the read view is composed: the view is computed
  from SyncedDataset and the transactions that are neither completed nor failed, every
  operation that is applied comes from a mutation of such a transaction, a key that no
  such mutation touches shows its SyncedDataset record, and when all transactions are
  terminal the read view is SyncedDataset itself. What a failed transaction wrote is
  thereby retracted, except where a mutation of a transaction that is still live holds
  it in its own \<^verbatim>\<open>modified\<close> record.
\<close>

theorem overlay_excludes_terminal_transactions:
  assumes "c = run (initial cfg) events"
  shows "view (state c) = overlay (syncedData c) (filter live (transactions c)) \<and>
         (\<forall>x \<in> set (optimisticOperations (transactions c)).
            \<exists>t \<in> set (transactions c). tx_state t \<noteq> Completed \<and> tx_state t \<noteq> Failed \<and>
               x \<in> message_of ` set (mutations t)) \<and>
         (\<forall>k. k \<notin> msg_key ` set (optimisticOperations (transactions c)) \<longrightarrow>
            view (state c) k = view (syncedData c) k) \<and>
         ((\<forall>t \<in> set (transactions c). tx_state t = Completed \<or> tx_state t = Failed) \<longrightarrow>
            view (state c) = view (syncedData c))"
proof (intro conjI ballI impI allI)
  show "view (state c) = overlay (syncedData c) (filter live (transactions c))"
    by (simp only: assms view_state_reachable overlay_live)
next
  fix k assume "k \<notin> msg_key ` set (optimisticOperations (transactions c))"
  then have "last_operation k (optimisticOperations (transactions c)) = None"
    by (auto simp: last_operation_def find_None_iff)
  then have "overlay (syncedData c) (transactions c) k = view (syncedData c) k"
    by (simp add: overlay_shown shown_def)
  then show "view (state c) k = view (syncedData c) k"
    by (simp only: assms view_state_reachable)
next
  fix x assume "x \<in> set (optimisticOperations (transactions c))"
  then show "\<exists>t \<in> set (transactions c). tx_state t \<noteq> Completed \<and> tx_state t \<noteq> Failed \<and>
               x \<in> message_of ` set (mutations t)"
    by (rule operations_of_live)
next
  assume "\<forall>t \<in> set (transactions c). tx_state t = Completed \<or> tx_state t = Failed"
  then have "overlay (syncedData c) (transactions c) = view (syncedData c)"
    by (rule overlay_all_terminal)
  then show "view (state c) = view (syncedData c)"
    by (simp only: assms view_state_reachable)
qed

theorem overlay_excludes_terminal_transactions_witness:
  "map tx_state (transactions (run (initial example_config) failed_events)) = [Failed] \<and>
   list_all (\<lambda>t. tx_state t = Completed \<or> tx_state t = Failed)
     (transactions (run (initial example_config) failed_events)) \<and>
   view (state (run (initial example_config) failed_events)) =
     view (syncedData (run (initial example_config) failed_events)) \<and>
   map_of (state (run (initial example_config) failed_events)) ''k1'' = Some rec1"
proof -
  have e: "map tx_state (transactions (run (initial example_config) failed_events)) = [Failed]"
    "map_of (state (run (initial example_config) failed_events)) ''k1'' = Some rec1"
    by (simp_all add: failed_events_def set_b_def update_mutations.simps update_keys.simps
          eval_defs)
  have l: "list_all (\<lambda>t. tx_state t = Completed \<or> tx_state t = Failed)
          (transactions (run (initial example_config) failed_events))"
    by (simp add: failed_events_def set_b_def update_mutations.simps update_keys.simps
          eval_defs)
  then have t: "\<forall>t \<in> set (transactions (run (initial example_config) failed_events)).
      tx_state t = Completed \<or> tx_state t = Failed"
    by (simp add: list_all_iff)
  from overlay_excludes_terminal_transactions [OF refl, of example_config failed_events] t l e
  show ?thesis by blast
qed


section \<open>Update\<close>

lemma update_mutations_no_changes:
  "\<forall>d \<in> set changesArray. d = None \<or> d = Some [] \<Longrightarrow>
     update_mutations c md n keys changesArray = Inr []"
proof (induction keys arbitrary: changesArray)
  case Nil
  show ?case by simp
next
  case (Cons k keys)
  show ?case
  proof (cases changesArray)
    case Nil
    with Cons show ?thesis by simp
  next
    case (Cons d ds)
    with Cons.prems have "d = None \<or> d = Some []" and "\<forall>d \<in> set ds. d = None \<or> d = Some []"
      by simp_all
    with Cons.IH [of ds] Cons show ?thesis by auto
  qed
qed

text \<open>
  C7. A call of \<^verbatim>\<open>update\<close> that gets as far as running the mutator (a persistence
  function is configured and every item resolves to a key) and for which the tracker
  reports a missing or empty diff for every record throws the no-changes error; the
  collection, and with it the transaction set, is as before.
\<close>

theorem update_without_changes_fails:
  assumes "has_mutationFn (config c)"
    and "update_keys c (itemsArray a) = Inr keys"
    and "\<forall>d \<in> set (if isArray a
                     then withArrayChangeTracking tr (map (\<lambda>k. spread (map_of (state c) k)) keys)
                     else map (withChangeTracking tr)
                            (take 1 (map (\<lambda>k. spread (map_of (state c) k)) keys))).
           d = None \<or> d = Some []"
  shows "update c (Some a) md tr = Inl NoChangesMade \<and>
         step c (UpdateCall (Some a) md tr) = c \<and>
         transactions (step c (UpdateCall (Some a) md tr)) = transactions c"
proof -
  have "update c (Some a) md tr = Inl NoChangesMade"
    using assms(1,2) update_mutations_no_changes [OF assms(3)]
    by (simp add: update_def Let_def)
  then show ?thesis by (simp add: or_same_def)
qed

theorem update_without_changes_fails_witness:
  "has_mutationFn (config synced_example) \<and>
   update_keys synced_example (itemsArray (Single (ObjItem rec1))) = Inr [''k1''] \<and>
   update synced_example (Some (Single (ObjItem rec1))) None no_change = Inl NoChangesMade \<and>
   transactions (step synced_example (UpdateCall (Some (Single (ObjItem rec1))) None no_change)) =
     transactions synced_example"
proof -
  have h1: "has_mutationFn (config synced_example)"
    and h2: "update_keys synced_example (itemsArray (Single (ObjItem rec1))) = Inr [''k1'']"
    by (simp_all add: synced_example_def update_keys.simps eval_defs)
  have h3: "\<forall>d \<in> set (if isArray (Single (ObjItem rec1))
                     then withArrayChangeTracking no_change
                            (map (\<lambda>k. spread (map_of (state synced_example) k)) [''k1''])
                     else map (withChangeTracking no_change)
                            (take 1 (map (\<lambda>k. spread (map_of (state synced_example) k)) [''k1'']))).
           d = None \<or> d = Some []"
    by (simp add: isArray_def no_change_def)
  from update_without_changes_fails [OF h1 h2 h3, of None] h1 h2 show ?thesis
    by blast
qed








section \<open>First-commit callbacks\<close>

lemma fire_first_commit_flag:
  "hasReceivedFirstCommit (fire_first_commit c)"
  "hasReceivedFirstCommit c \<Longrightarrow> fire_first_commit c = c"
  by (simp_all add: fire_first_commit_def)

lemma batch_callbacks:
  "hasReceivedFirstCommit
     (if ops = [] then fst (foldl merge_operation (c, []) ops)
      else recompute (fst (foldl merge_operation (c, []) ops))) = hasReceivedFirstCommit c"
  "fired
     (if ops = [] then fst (foldl merge_operation (c, []) ops)
      else recompute (fst (foldl merge_operation (c, []) ops))) = fired c"
  "onFirstCommitCallbacks
     (if ops = [] then fst (foldl merge_operation (c, []) ops)
      else recompute (fst (foldl merge_operation (c, []) ops))) = onFirstCommitCallbacks c"
  by (simp_all add: recompute_fields merge_operations_fields)

lemma commitPendingTransactions_callbacks:
  assumes "hasReceivedFirstCommit c"
  shows "hasReceivedFirstCommit (commitPendingTransactions c)"
    and "fired (commitPendingTransactions c) = fired c"
    and "onFirstCommitCallbacks (commitPendingTransactions c) = onFirstCommitCallbacks c"
proof -
  have "hasReceivedFirstCommit (commitPendingTransactions c) \<and>
        fired (commitPendingTransactions c) = fired c \<and>
        onFirstCommitCallbacks (commitPendingTransactions c) = onFirstCommitCallbacks c"
  proof (cases "may_merge c")
    case False
    with assms show ?thesis by (simp add: not_may_merge)
  next
    case True
    define c1 where "c1 =
      (if concat (map operations (pendingSyncedTransactions c)) = []
       then fst (foldl merge_operation (c, []) (concat (map operations (pendingSyncedTransactions c))))
       else recompute (fst (foldl merge_operation (c, [])
              (concat (map operations (pendingSyncedTransactions c))))))"
    have c1: "hasReceivedFirstCommit c1" "fired c1 = fired c"
      "onFirstCommitCallbacks c1 = onFirstCommitCallbacks c"
      unfolding c1_def using assms by (simp_all only: batch_callbacks)
    from commitPendingTransactions_merge [OF True] obtain okm where
      eq: "commitPendingTransactions c =
             fire_first_commit (c1\<lparr>objectKeyMap := okm, pendingSyncedTransactions := []\<rparr>)"
      unfolding c1_def by blast
    show ?thesis
      by (simp add: eq c1 fire_first_commit_flag(2))
  qed
  then show "hasReceivedFirstCommit (commitPendingTransactions c)"
    and "fired (commitPendingTransactions c) = fired c"
    and "onFirstCommitCallbacks (commitPendingTransactions c) = onFirstCommitCallbacks c"
    by simp_all
qed

lemma set_transactions_callbacks:
  assumes "hasReceivedFirstCommit c"
  shows "hasReceivedFirstCommit (set_transactions c txs)"
    and "fired (set_transactions c txs) = fired c"
    and "onFirstCommitCallbacks (set_transactions c txs) = onFirstCommitCallbacks c"
  using assms
  by (simp_all add: set_transactions_def commitPendingTransactions_callbacks recompute_fields)

lemma insert_shape:
  "insert_records c data kc md = Inr c' \<Longrightarrow> \<exists>ms. c' = applyTransaction c ms"
  by (auto simp: insert_records_def split: if_splits sum.splits)

lemma update_shape:
  "update c items md tr = Inr c' \<Longrightarrow>
     \<exists>n ms. c' = applyTransaction (c\<lparr>nextRef := n\<rparr>) ms"
  by (auto simp: update_def Let_def split: if_splits sum.splits option.splits)

lemma delete_shape:
  "delete c items md = Inr c' \<Longrightarrow>
     \<exists>okm n ms. c' = applyTransaction (c\<lparr>objectKeyMap := okm, nextRef := n\<rparr>) ms"
  by (auto simp: delete_def split: if_splits sum.splits)

lemma settled_applyTransaction:
  assumes "hasReceivedFirstCommit c0" "fired c0 = fired c"
    "onFirstCommitCallbacks c0 = onFirstCommitCallbacks c"
  shows "settled c (applyTransaction c0 ms)"
  using assms
  by (simp add: settled_def applyTransaction_def set_transactions_callbacks)

lemma settled_or_same:
  "hasReceivedFirstCommit c \<Longrightarrow> (\<And>c'. r = Inr c' \<Longrightarrow> settled c c') \<Longrightarrow> settled c (or_same c r)"
  by (cases r) (simp_all add: or_same_def settled_def)

lemma settled_step:
  assumes f: "hasReceivedFirstCommit c"
  shows "settled c (step c ev)"
proof (cases ev)
  case Begin
  with f show ?thesis by (simp add: or_same_def begin_sync_def settled_def)
next
  case (Write message)
  with f show ?thesis
    by (auto simp: or_same_def write_sync_def settled_def split: list.splits)
next
  case Commit
  show ?thesis
    unfolding Commit step.simps
  proof (rule settled_or_same [OF f])
    fix c' assume "commit_sync c = Inr c'"
    then have c': "c' = commitPendingTransactions
                (c\<lparr>pendingSyncedTransactions :=
                     butlast (pendingSyncedTransactions c) @
                     [(last (pendingSyncedTransactions c))\<lparr>committed := True\<rparr>]\<rparr>)"
      by (rule commit_sync_Inr(3))
    show "settled c c'"
      unfolding c' settled_def using f by (simp add: commitPendingTransactions_callbacks)
  qed
next
  case (OnFirstCommit callback)
  with f show ?thesis by (auto simp: onFirstCommit_def settled_def)
next
  case (StateWhenReady callback)
  with f show ?thesis by (simp add: stateWhenReady_def settled_def)
next
  case (ToArrayWhenReady callback)
  with f show ?thesis by (simp add: toArrayWhenReady_def settled_def)
next
  case (InsertCall data kc md)
  show ?thesis
    unfolding InsertCall step.simps
  proof (rule settled_or_same [OF f])
    fix c' assume "insert_records c data kc md = Inr c'"
    then obtain ms where "c' = applyTransaction c ms"
      using insert_shape by blast
    then show "settled c c'"
      using f by (simp add: settled_applyTransaction)
  qed
next
  case (UpdateCall items md tr)
  show ?thesis
    unfolding UpdateCall step.simps
  proof (rule settled_or_same [OF f])
    fix c' assume "update c items md tr = Inr c'"
    then obtain n ms where "c' = applyTransaction (c\<lparr>nextRef := n\<rparr>) ms"
      using update_shape by blast
    then show "settled c c'"
      using f by (simp add: settled_applyTransaction)
  qed
next
  case (DeleteCall items md)
  show ?thesis
    unfolding DeleteCall step.simps
  proof (rule settled_or_same [OF f])
    fix c' assume "delete c items md = Inr c'"
    then obtain okm n ms where "c' = applyTransaction (c\<lparr>objectKeyMap := okm, nextRef := n\<rparr>) ms"
      using delete_shape by blast
    then show "settled c c'"
      using f by (simp add: settled_applyTransaction)
  qed
next
  case (SetTransactionState i st)
  with f show ?thesis
    by (simp add: setTransactionState_def settled_def set_transactions_callbacks)
next
  case CommitPendingTransactions
  with f show ?thesis
    by (simp add: settled_def commitPendingTransactions_callbacks)
qed

lemma settled_run:
  "hasReceivedFirstCommit c \<Longrightarrow> settled c (run c events)"
proof (induction events arbitrary: c)
  case Nil
  then show ?case by (simp add: run_def settled_def)
next
  case (Cons ev events)
  from Cons.prems have s: "settled c (step c ev)" by (rule settled_step)
  then have "hasReceivedFirstCommit (step c ev)" by (simp add: settled_def)
  then have "settled (step c ev) (run (step c ev) events)" by (rule Cons.IH)
  with s show ?case by (auto simp: run_def settled_def)
qed


lemma stateWhenReady_ready:
  "hasReceivedFirstCommit c \<Longrightarrow> stateWhenReady c callback = (c, Some (state c))"
  "hasReceivedFirstCommit c \<Longrightarrow> toArrayWhenReady c callback = (c, Some (toArray c))"
  by (simp_all add: stateWhenReady_def toArrayWhenReady_def)

lemma fired_commitPendingTransactions:
  "fired (commitPendingTransactions c) =
     (if may_merge c \<and> \<not> hasReceivedFirstCommit c then fired c @ onFirstCommitCallbacks c
      else fired c)"
proof (cases "may_merge c")
  case False
  then show ?thesis by (simp add: not_may_merge)
next
  case True
  define c1 where "c1 =
    (if concat (map operations (pendingSyncedTransactions c)) = []
     then fst (foldl merge_operation (c, []) (concat (map operations (pendingSyncedTransactions c))))
     else recompute (fst (foldl merge_operation (c, [])
            (concat (map operations (pendingSyncedTransactions c))))))"
  have c1: "hasReceivedFirstCommit c1 = hasReceivedFirstCommit c" "fired c1 = fired c"
    "onFirstCommitCallbacks c1 = onFirstCommitCallbacks c"
    unfolding c1_def by (simp_all only: batch_callbacks)
  from commitPendingTransactions_merge [OF True] obtain okm where
    eq: "commitPendingTransactions c =
           fire_first_commit (c1\<lparr>objectKeyMap := okm, pendingSyncedTransactions := []\<rparr>)"
    unfolding c1_def by blast
  show ?thesis
    using True by (simp add: eq c1 fire_first_commit_def)
qed

text \<open>
  C10. Once the first merge has happened, a callback registered with
  \<^verbatim>\<open>onFirstCommit\<close> is never called: whatever the collection is asked to do afterwards,
  the trace of called callbacks stays as it was and the callback stays in the list. The
  list is drained only by a merge that finds \<^verbatim>\<open>hasReceivedFirstCommit\<close> false, and
  \<^verbatim>\<open>stateWhenReady\<close> and \<^verbatim>\<open>toArrayWhenReady\<close> resolve at once instead of
  registering when the flag is set.
\<close>

theorem late_first_commit_callback_never_fires:
  assumes "hasReceivedFirstCommit c"
  shows "fired (run (onFirstCommit c callback) events) = fired c \<and>
         callback \<in> set (onFirstCommitCallbacks (run (onFirstCommit c callback) events)) \<and>
         hasReceivedFirstCommit (run (onFirstCommit c callback) events) \<and>
         stateWhenReady c callback = (c, Some (state c)) \<and>
         toArrayWhenReady c callback = (c, Some (toArray c)) \<and>
         fired (commitPendingTransactions c') =
           (if may_merge c' \<and> \<not> hasReceivedFirstCommit c'
            then fired c' @ onFirstCommitCallbacks c' else fired c')"
proof -
  have r: "hasReceivedFirstCommit (onFirstCommit c callback)"
    "fired (onFirstCommit c callback) = fired c"
    "callback \<in> set (onFirstCommitCallbacks (onFirstCommit c callback))"
    using assms by (simp_all add: onFirstCommit_def)
  from settled_run [OF r(1), of events] r(2,3)
  have "fired (run (onFirstCommit c callback) events) = fired c"
    "callback \<in> set (onFirstCommitCallbacks (run (onFirstCommit c callback) events))"
    "hasReceivedFirstCommit (run (onFirstCommit c callback) events)"
    by (auto simp: settled_def)
  then show ?thesis
    using assms by (simp only: stateWhenReady_ready fired_commitPendingTransactions simp_thms)
qed


theorem late_first_commit_callback_never_fires_witness:
  "hasReceivedFirstCommit synced_example \<and>
   fired (run (onFirstCommit synced_example 7)
            [Begin, Write (sync_insert ''k3'' rec3), Commit]) = fired synced_example \<and>
   7 \<in> set (onFirstCommitCallbacks
              (run (onFirstCommit synced_example 7)
                 [Begin, Write (sync_insert ''k3'' rec3), Commit]))"
proof -
  have h: "hasReceivedFirstCommit synced_example"
    by (simp add: synced_example_def eval_defs)
  from late_first_commit_callback_never_fires [OF h, of 7 "[Begin, Write (sync_insert ''k3'' rec3), Commit]"] h
  show ?thesis by blast
qed

section \<open>The deferred merge is retried\<close>

lemma set_transactions_merges:
  assumes "\<forall>t \<in> set txs. tx_state t = Completed \<or> tx_state t = Failed"
  shows "view (syncedData (set_transactions c txs)) =
           foldl spec_fold_change (view (syncedData c))
             (concat (map operations (pendingSyncedTransactions c)))"
    and "map_of (syncedMetadata (set_transactions c txs)) =
           foldl spec_fold_metadata (map_of (syncedMetadata c))
             (concat (map operations (pendingSyncedTransactions c)))"
    and "pendingSyncedTransactions (set_transactions c txs) = []"
proof -
  let ?c0 = "recompute (c\<lparr>transactions := txs\<rparr>)"
  have m: "may_merge ?c0"
    using assms by (simp add: may_merge_iff recompute_fields)
  have f: "syncedData ?c0 = syncedData c" "syncedMetadata ?c0 = syncedMetadata c"
    "pendingSyncedTransactions ?c0 = pendingSyncedTransactions c"
    by (simp_all add: recompute_fields)
  show "view (syncedData (set_transactions c txs)) =
           foldl spec_fold_change (view (syncedData c))
             (concat (map operations (pendingSyncedTransactions c)))"
    unfolding set_transactions_def
    by (simp only: merged_stores(1) [OF m] view_merge_operations fst_conv f)
  show "map_of (syncedMetadata (set_transactions c txs)) =
           foldl spec_fold_metadata (map_of (syncedMetadata c))
             (concat (map operations (pendingSyncedTransactions c)))"
    unfolding set_transactions_def
    by (simp only: merged_stores(2) [OF m] metadata_merge_operations fst_conv f)
  show "pendingSyncedTransactions (set_transactions c txs) = []"
    unfolding set_transactions_def by (rule merged_stores(3) [OF m])
qed

lemma set_transactions_defers:
  assumes "\<exists>t \<in> set txs. tx_state t \<noteq> Completed \<and> tx_state t \<noteq> Failed"
  shows "syncedData (set_transactions c txs) = syncedData c"
    and "syncedMetadata (set_transactions c txs) = syncedMetadata c"
    and "pendingSyncedTransactions (set_transactions c txs) = pendingSyncedTransactions c"
proof -
  let ?c0 = "recompute (c\<lparr>transactions := txs\<rparr>)"
  have "\<not> may_merge ?c0"
    using assms by (auto simp: may_merge_iff recompute_fields)
  then have "set_transactions c txs = ?c0"
    by (simp add: set_transactions_def not_may_merge)
  then show "syncedData (set_transactions c txs) = syncedData c"
    and "syncedMetadata (set_transactions c txs) = syncedMetadata c"
    and "pendingSyncedTransactions (set_transactions c txs) = pendingSyncedTransactions c"
    by (simp_all add: recompute_fields)
qed

lemma all_terminal_after:
  assumes "i < length txs"
    and "st = Completed \<or> st = Failed"
    and "\<forall>j < length txs. j \<noteq> i \<longrightarrow> tx_state (txs ! j) = Completed \<or> tx_state (txs ! j) = Failed"
  shows "\<forall>t \<in> set (txs[i := (txs ! i)\<lparr>tx_state := st\<rparr>]). tx_state t = Completed \<or> tx_state t = Failed"
proof
  fix t assume "t \<in> set (txs[i := (txs ! i)\<lparr>tx_state := st\<rparr>])"
  then obtain j where j: "j < length txs" "t = (txs[i := (txs ! i)\<lparr>tx_state := st\<rparr>]) ! j"
    by (auto simp: in_set_conv_nth)
  show "tx_state t = Completed \<or> tx_state t = Failed"
  proof (cases "j = i")
    case True
    with j assms(1,2) show ?thesis by simp
  next
    case False
    with j assms(3) show ?thesis by simp
  qed
qed

lemma some_live_after:
  assumes "i < length txs"
    and "(st \<noteq> Completed \<and> st \<noteq> Failed) \<or>
         (\<exists>j < length txs. j \<noteq> i \<and> tx_state (txs ! j) \<noteq> Completed \<and> tx_state (txs ! j) \<noteq> Failed)"
  shows "\<exists>t \<in> set (txs[i := (txs ! i)\<lparr>tx_state := st\<rparr>]). tx_state t \<noteq> Completed \<and> tx_state t \<noteq> Failed"
proof -
  let ?txs = "txs[i := (txs ! i)\<lparr>tx_state := st\<rparr>]"
  from assms(2) show ?thesis
  proof
    assume s: "st \<noteq> Completed \<and> st \<noteq> Failed"
    have "?txs ! i \<in> set ?txs" using assms(1) by (simp add: set_update_memI)
    moreover have "tx_state (?txs ! i) = st" using assms(1) by simp
    ultimately show ?thesis using s by metis
  next
    assume "\<exists>j < length txs. j \<noteq> i \<and> tx_state (txs ! j) \<noteq> Completed \<and> tx_state (txs ! j) \<noteq> Failed"
    then obtain j where j: "j < length txs" "j \<noteq> i"
      "tx_state (txs ! j) \<noteq> Completed \<and> tx_state (txs ! j) \<noteq> Failed" by blast
    then have "?txs ! j = txs ! j" by simp
    moreover have "?txs ! j \<in> set ?txs" using j(1) by (simp add: nth_mem)
    ultimately show ?thesis using j(3) by metis
  qed
qed

text \<open>
  C4. The retry lives in the transaction coordinator, which is modelled from the spec
  (every change of the transaction set ends with a merge attempt). When the coordinator
  moves the last live transaction to completed or failed, the queued buffers are folded
  into SyncedDataset and SyncedMetadata and the queue is emptied, with no call from the
  sync source; a change after which some transaction is still live leaves the stores and
  the queue as they were.
\<close>

theorem deferred_merge_retried_on_transaction_change:
  assumes "i < length (transactions c)"
    and "live (transactions c ! i)"
  shows "((st = Completed \<or> st = Failed) \<and>
          (\<forall>j < length (transactions c). j \<noteq> i \<longrightarrow>
             tx_state (transactions c ! j) = Completed \<or> tx_state (transactions c ! j) = Failed) \<longrightarrow>
            view (syncedData (step c (SetTransactionState i st))) =
              foldl spec_fold_change (view (syncedData c))
                (concat (map operations (pendingSyncedTransactions c))) \<and>
            map_of (syncedMetadata (step c (SetTransactionState i st))) =
              foldl spec_fold_metadata (map_of (syncedMetadata c))
                (concat (map operations (pendingSyncedTransactions c))) \<and>
            pendingSyncedTransactions (step c (SetTransactionState i st)) = []) \<and>
         ((st \<noteq> Completed \<and> st \<noteq> Failed) \<or>
          (\<exists>j < length (transactions c). j \<noteq> i \<and>
             tx_state (transactions c ! j) \<noteq> Completed \<and> tx_state (transactions c ! j) \<noteq> Failed) \<longrightarrow>
            syncedData (step c (SetTransactionState i st)) = syncedData c \<and>
            syncedMetadata (step c (SetTransactionState i st)) = syncedMetadata c \<and>
            pendingSyncedTransactions (step c (SetTransactionState i st)) =
              pendingSyncedTransactions c)"
proof -
  let ?txs = "(transactions c)[i := (transactions c ! i)\<lparr>tx_state := st\<rparr>]"
  have s: "step c (SetTransactionState i st) = set_transactions c ?txs"
    using assms by (simp add: setTransactionState_def)
  show ?thesis
  proof (intro conjI impI)
    assume a: "(st = Completed \<or> st = Failed) \<and>
          (\<forall>j < length (transactions c). j \<noteq> i \<longrightarrow>
             tx_state (transactions c ! j) = Completed \<or> tx_state (transactions c ! j) = Failed)"
    then have t: "\<forall>t \<in> set ?txs. tx_state t = Completed \<or> tx_state t = Failed"
      using all_terminal_after [OF assms(1), of st] by blast
    show "view (syncedData (step c (SetTransactionState i st))) =
              foldl spec_fold_change (view (syncedData c))
                (concat (map operations (pendingSyncedTransactions c)))"
      "map_of (syncedMetadata (step c (SetTransactionState i st))) =
              foldl spec_fold_metadata (map_of (syncedMetadata c))
                (concat (map operations (pendingSyncedTransactions c)))"
      "pendingSyncedTransactions (step c (SetTransactionState i st)) = []"
      by (simp_all only: s set_transactions_merges [OF t])
  next
    assume "(st \<noteq> Completed \<and> st \<noteq> Failed) \<or>
          (\<exists>j < length (transactions c). j \<noteq> i \<and>
             tx_state (transactions c ! j) \<noteq> Completed \<and> tx_state (transactions c ! j) \<noteq> Failed)"
    then have t: "\<exists>t \<in> set ?txs. tx_state t \<noteq> Completed \<and> tx_state t \<noteq> Failed"
      by (rule some_live_after [OF assms(1)])
    show "syncedData (step c (SetTransactionState i st)) = syncedData c"
      "syncedMetadata (step c (SetTransactionState i st)) = syncedMetadata c"
      "pendingSyncedTransactions (step c (SetTransactionState i st)) =
              pendingSyncedTransactions c"
      by (simp_all only: s set_transactions_defers [OF t])
  qed
qed

theorem deferred_merge_retried_on_transaction_change_witness:
  "0 < length (transactions gated_committed) \<and>
   live (transactions gated_committed ! 0) \<and>
   length (transactions gated_committed) = 1 \<and>
   map operations (pendingSyncedTransactions gated_committed) = [[sync_insert ''k1'' rec1]] \<and>
   syncedData gated_committed = [] \<and>
   view (syncedData (step gated_committed (SetTransactionState 0 Completed))) =
     foldl spec_fold_change (view (syncedData gated_committed))
       (concat (map operations (pendingSyncedTransactions gated_committed))) \<and>
   pendingSyncedTransactions (step gated_committed (SetTransactionState 0 Completed)) = [] \<and>
   map_of (syncedData (step gated_committed (SetTransactionState 0 Completed))) ''k1'' = Some rec1"
proof -
  have h1: "0 < length (transactions gated_committed)"
    and h2: "live (transactions gated_committed ! 0)"
    and n: "length (transactions gated_committed) = 1"
    and q: "map operations (pendingSyncedTransactions gated_committed) = [[sync_insert ''k1'' rec1]]"
    and e: "syncedData gated_committed = []"
    and r: "map_of (syncedData (step gated_committed (SetTransactionState 0 Completed))) ''k1'' = Some rec1"
    by (simp_all add: gated_committed_def gated_example_def insert_mutations.simps eval_defs)
  from n have h3: "\<forall>j < length (transactions gated_committed). j \<noteq> 0 \<longrightarrow>
      tx_state (transactions gated_committed ! j) = Completed \<or>
      tx_state (transactions gated_committed ! j) = Failed"
    by simp
  from deferred_merge_retried_on_transaction_change [OF h1 h2, of Completed] h1 h2 h3 n q e r
  show ?thesis by blast
qed

section \<open>Delete and the identity association\<close>

lemma delete_Inr:
  assumes "delete c items md = Inr c'"
  shows "has_mutationFn (config c)"
    and "\<exists>ms. delete_mutations c md (nextRef c) (itemsArray items) = Inr ms \<and>
           c' = applyTransaction
                  (c\<lparr>objectKeyMap := foldl (untrack (state c)) (objectKeyMap c) ms,
                     nextRef := nextRef c + length ms\<rparr>) ms"
  using assms by (auto simp: delete_def split: if_splits sum.splits)

lemma delete_mutations_Inr:
  "delete_mutations c md n items = Inr ms \<Longrightarrow>
     (\<forall>m \<in> set ms. mtype m = Delete) \<and>
     (\<forall>item \<in> set items. \<forall>k. item_key c item = Some k \<longrightarrow> k \<in> mkey ` set ms)"
proof (induction items arbitrary: n ms)
  case Nil
  then show ?case by simp
next
  case (Cons item items)
  from Cons.prems obtain k ms' where
    k: "item_key c item = Some k"
    and r: "delete_mutations c md (Suc n) items = Inr ms'"
    and ms: "mkey (hd ms) = k" "mtype (hd ms) = Delete" "tl ms = ms'" "ms \<noteq> []"
    by (cases item) (auto simp: item_key_def split: sum.splits option.splits)
  from Cons.IH [OF r] have ih: "\<forall>m \<in> set ms'. mtype m = Delete"
    "\<forall>item \<in> set items. \<forall>k. item_key c item = Some k \<longrightarrow> k \<in> mkey ` set ms'"
    by simp_all
  from ms have s: "set ms = {hd ms} \<union> set ms'"
    by (cases ms) auto
  show ?case
    using k ms(1,2) ih by (auto simp: s)
qed

lemma applyTransaction_pending:
  "applyTransaction c ms =
     recompute (c\<lparr>transactions := transactions c @ [\<lparr>tx_state = Pending, mutations = ms\<rparr>]\<rparr>)"
proof -
  have "\<not> may_merge (recompute (c\<lparr>transactions := transactions c @ [\<lparr>tx_state = Pending, mutations = ms\<rparr>]\<rparr>))"
    by (simp add: may_merge_iff recompute_fields)
  then show ?thesis
    by (simp add: applyTransaction_def set_transactions_def not_may_merge)
qed

lemma untrack_None:
  "map_of okm r = None \<Longrightarrow> map_of (untrack st okm m) r = None"
  by (simp add: untrack_def delete_conv' split: option.splits)

lemma untrack_fold_None:
  "map_of okm r = None \<Longrightarrow> map_of (foldl (untrack st) okm ms) r = None"
  by (induction ms arbitrary: okm) (simp_all add: untrack_None)

lemma untrack_fold_removes:
  "m \<in> set ms \<Longrightarrow> map_of st (mkey m) = Some v \<Longrightarrow>
     map_of (foldl (untrack st) okm ms) (oid v) = None"
proof (induction ms arbitrary: okm)
  case Nil
  then show ?case by simp
next
  case (Cons x ms)
  show ?case
  proof (cases "x = m")
    case True
    with Cons.prems(2) have "map_of (untrack st okm x) (oid v) = None"
      by (simp add: untrack_def delete_conv')
    then show ?thesis by (simp add: untrack_fold_None)
  next
    case False
    with Cons.prems have "m \<in> set ms" by simp
    from Cons.IH [OF this Cons.prems(2)] show ?thesis by simp
  qed
qed

lemma track_fold_None:
  "map_of okm r = None \<Longrightarrow>
     \<forall>k \<in> set ks. \<forall>w. map_of st k = Some w \<longrightarrow> oid w \<noteq> r \<Longrightarrow>
     map_of (foldl (track st) okm ks) r = None"
proof (induction ks arbitrary: okm)
  case Nil
  then show ?case by simp
next
  case (Cons k ks)
  have "map_of (track st okm k) r = None"
    using Cons.prems by (auto simp: track_def update_conv' split: option.splits)
  moreover have "\<forall>k \<in> set ks. \<forall>w. map_of st k = Some w \<longrightarrow> oid w \<noteq> r"
    using Cons.prems(2) by simp
  ultimately show ?case using Cons.IH by simp
qed

lemma set_add_fold: "set (foldl set_add acc xs) = set acc \<union> set xs"
  by (induction xs arbitrary: acc) (auto simp: set_add_def)

lemma apply_operation_counter:
  "n \<le> snd (apply_operation synced (cmb, n) x)"
  by (cases "msg_type x") (simp_all add: apply_operation_def)

lemma combine_counter:
  "n \<le> snd (foldl (apply_operation synced) (cmb, n) ops)"
proof (induction ops arbitrary: cmb n)
  case Nil
  show ?case by simp
next
  case (Cons x ops)
  obtain cmb' n' where r: "apply_operation synced (cmb, n) x = (cmb', n')"
    by (cases "apply_operation synced (cmb, n) x")
  with apply_operation_counter [of n synced cmb x] have "n \<le> n'" by simp
  moreover have "n' \<le> snd (foldl (apply_operation synced) (cmb', n') ops)"
    by (rule Cons.IH)
  ultimately show ?case by (simp add: r)
qed

lemma map_of_apply_operation:
  "map_of (fst (apply_operation synced (cmb, n) x)) k =
     (if msg_key x = k
      then (case msg_type x of
              Insert \<Rightarrow> Some (msg_value x)
            | Update \<Rightarrow>
                Some \<lparr>oid = Alloc n,
                      props = assign (spread (map_of synced (msg_key x))) (props (msg_value x))\<rparr>
            | Delete \<Rightarrow> None)
      else map_of cmb k)"
  by (cases "msg_type x") (auto simp: apply_operation_def update_conv' delete_conv')

lemma combine_value:
  "k \<in> msg_key ` set ops \<Longrightarrow>
   map_of (fst (foldl (apply_operation synced) (cmb, n) ops)) k = Some w \<Longrightarrow>
     (\<exists>x \<in> set ops. msg_type x = Insert \<and> msg_key x = k \<and> msg_value x = w) \<or>
     (\<exists>m \<ge> n. oid w = Alloc m)"
proof (induction ops rule: rev_induct)
  case Nil
  then show ?case by simp
next
  case (snoc x xs)
  obtain cmb' n' where r: "foldl (apply_operation synced) (cmb, n) xs = (cmb', n')"
    by (cases "foldl (apply_operation synced) (cmb, n) xs")
  with combine_counter [of n synced cmb xs] have n: "n \<le> n'" by simp
  have "map_of (fst (foldl (apply_operation synced) (cmb, n) (xs @ [x]))) k =
          map_of (fst (apply_operation synced (cmb', n') x)) k"
    by (simp add: r)
  with snoc.prems(2) have v: "map_of (fst (apply_operation synced (cmb', n') x)) k = Some w"
    by simp
  show ?case
  proof (cases "msg_key x = k")
    case True
    from v True n show ?thesis
      unfolding map_of_apply_operation
      by (cases "msg_type x") auto
  next
    case False
    with v have v': "map_of cmb' k = Some w"
      unfolding map_of_apply_operation by simp
    from False snoc.prems(1) have "k \<in> msg_key ` set xs" by auto
    from snoc.IH [OF this] v' r show ?thesis by auto
  qed
qed

lemma last_operation_snoc:
  "last_operation k (ys @ [y]) = (if msg_key y = k then Some y else last_operation k ys)"
  by (simp add: last_operation_def)

lemma last_operation_append:
  "last_operation k (xs @ ys) =
     (case last_operation k ys of None \<Rightarrow> last_operation k xs | Some x \<Rightarrow> Some x)"
proof (induction ys rule: rev_induct)
  case Nil
  show ?case by (simp add: last_operation_def)
next
  case (snoc y ys)
  have "last_operation k (xs @ ys @ [y]) = last_operation k ((xs @ ys) @ [y])" by simp
  also have "\<dots> = (if msg_key y = k then Some y else last_operation k (xs @ ys))"
    by (rule last_operation_snoc)
  finally show ?case
    by (simp add: snoc.IH last_operation_snoc)
qed

lemma last_operation_Some:
  "last_operation k ys = Some x \<Longrightarrow> x \<in> set ys \<and> msg_key x = k"
  by (induction ys rule: rev_induct)
     (auto simp: last_operation_snoc last_operation_def split: if_splits)

lemma last_operation_in:
  "k \<in> msg_key ` set ys \<Longrightarrow> \<exists>x. last_operation k ys = Some x"
  by (induction ys rule: rev_induct) (auto simp: last_operation_snoc)

lemma deleted_key_absent:
  assumes "\<forall>x \<in> set ys. msg_type x = Delete" and "k \<in> msg_key ` set ys"
  shows "map_of (fst (combine synced (xs @ ys) n)) k = None"
proof -
  from last_operation_in [OF assms(2)] obtain x where x: "last_operation k ys = Some x"
    by blast
  with last_operation_Some [OF x] assms(1) have d: "msg_type x = Delete" by blast
  have "view (fst (combine synced (xs @ ys) n)) k = None"
    by (simp add: view_combine shown_def last_operation_append x d)
  then show ?thesis by (simp add: view_def)
qed

lemma operations_append_pending:
  "optimisticOperations (txs @ [\<lparr>tx_state = Pending, mutations = ms\<rparr>]) =
     optimisticOperations txs @ map message_of ms"
  by (simp add: optimisticOperations_def live_def)


lemma recompute_untracked:
  assumes none: "map_of (objectKeyMap c) r = None"
    and fresh_refs: "\<forall>n \<ge> nextRef c. r \<noteq> Alloc n"
    and absent: "\<forall>k \<in> msg_key ` set (optimisticOperations (transactions c)).
                   \<forall>w. map_of (fst (combine (syncedData c)
                                  (optimisticOperations (transactions c)) (nextRef c))) k = Some w \<longrightarrow>
                       oid w \<noteq> r"
  shows "map_of (objectKeyMap (recompute c)) r = None"
proof -
  have "objectKeyMap (recompute c) =
          foldl (track (fst (combine (syncedData c) (optimisticOperations (transactions c)) (nextRef c))))
            (objectKeyMap c)
            (foldl set_add [] (map msg_key (optimisticOperations (transactions c))))"
    by (simp add: recompute_def Let_def)
  moreover have "map_of (foldl (track (fst (combine (syncedData c) (optimisticOperations (transactions c)) (nextRef c))))
            (objectKeyMap c)
            (foldl set_add [] (map msg_key (optimisticOperations (transactions c))))) r = None"
    using none absent by (intro track_fold_None) (simp_all add: set_add_fold)
  ultimately show ?thesis by simp
qed

text \<open>
  C9, as the spec states it, fails. \<^verbatim>\<open>delete\<close> drops the object-to-key entry of the
  object that the read view holds for the key, not the entries of other references to
  the record. Here \<open>rec1\<close> is associated with \<open>k1\<close>, the record is deleted by
  passing \<open>rec1\<close> and the key leaves the read view, yet the following
  \<^verbatim>\<open>update\<close> on \<open>rec1\<close> resolves the key and creates a second transaction.
\<close>

theorem delete_keeps_stale_reference_counterexample:
  "map_of (objectKeyMap stale_before) (oid rec1) = Some ''k1'' \<and>
   delete stale_before (Single (ObjItem rec1)) None = Inr stale_deleted \<and>
   map_of (state stale_deleted) ''k1'' = None \<and>
   length (transactions stale_deleted) = 1 \<and>
   update stale_deleted (Some (Single (ObjItem rec1))) None set_b = Inr stale_updated \<and>
   length (transactions stale_updated) = 2"
  by (simp add: stale_updated_def stale_deleted_def stale_before_def sync_update_def patch_def
        set_b_def delete_mutations.simps update_mutations.simps update_keys.simps eval_defs)

text \<open>
  C9, amended. For each key that a successful \<^verbatim>\<open>delete\<close> removes, the object that
  the read view holds for the key at that moment is no longer associated with a key
  when \<^verbatim>\<open>delete\<close> returns (provided it is not also the record of a pending insert
  under another key), so a following \<^verbatim>\<open>update\<close> that passes this object throws
  the object-not-found error and leaves the collection, and its transactions, as they
  are. The object exists when \<^verbatim>\<open>delete\<close> is called, so its reference is not one
  that is allocated later. Nothing is said about other references associated with the
  key.
\<close>

theorem delete_untracks_current_object:
  assumes del: "delete c items md = Inr c'"
    and item: "item \<in> set (itemsArray items)"
    and key: "item_key c item = Some k"
    and cur: "map_of (state c) k = Some v"
    and old: "\<forall>n \<ge> nextRef c. oid v \<noteq> Alloc n"
    and single: "\<forall>x \<in> set (optimisticOperations (transactions c)).
                   msg_type x = Insert \<and> msg_key x \<noteq> k \<longrightarrow> oid (msg_value x) \<noteq> oid v"
  shows "map_of (objectKeyMap c') (oid v) = None \<and>
         update c' (Some (Single (ObjItem v))) md' tr = Inl ObjectNotFound \<and>
         step c' (UpdateCall (Some (Single (ObjItem v))) md' tr) = c'"
proof -
  from delete_Inr [OF del] obtain ms where
    mf: "has_mutationFn (config c)"
    and ms: "delete_mutations c md (nextRef c) (itemsArray items) = Inr ms"
    and c': "c' = applyTransaction
                  (c\<lparr>objectKeyMap := foldl (untrack (state c)) (objectKeyMap c) ms,
                     nextRef := nextRef c + length ms\<rparr>) ms"
    by blast
  from delete_mutations_Inr [OF ms] item key have
    dels: "\<forall>m \<in> set ms. mtype m = Delete" and kin: "k \<in> mkey ` set ms"
    by blast+
  then obtain m where m: "m \<in> set ms" "mkey m = k" by auto
  let ?c1 = "c\<lparr>objectKeyMap := foldl (untrack (state c)) (objectKeyMap c) ms,
               nextRef := nextRef c + length ms,
               transactions := transactions c @ [\<lparr>tx_state = Pending, mutations = ms\<rparr>]\<rparr>"
  let ?ops = "optimisticOperations (transactions c)"
  have c'': "c' = recompute ?c1"
    by (simp add: c' applyTransaction_pending)
  have ops1: "optimisticOperations (transactions ?c1) = ?ops @ map message_of ms"
    by (simp add: operations_append_pending)
  have none: "map_of (objectKeyMap ?c1) (oid v) = None"
    using untrack_fold_removes [OF m(1), of "state c" v] m(2) cur by simp
  have refs: "\<forall>n \<ge> nextRef ?c1. oid v \<noteq> Alloc n"
    using old by simp
  have dmsg: "\<forall>x \<in> set (map message_of ms). msg_type x = Delete"
    using dels by (simp add: message_of_def)
  have kmsg: "k \<in> msg_key ` set (map message_of ms)"
    using kin by (auto simp: message_of_def image_iff)
  have absent: "\<forall>k' \<in> msg_key ` set (optimisticOperations (transactions ?c1)).
                   \<forall>w. map_of (fst (combine (syncedData ?c1)
                                  (optimisticOperations (transactions ?c1)) (nextRef ?c1))) k' = Some w \<longrightarrow>
                       oid w \<noteq> oid v"
  proof (intro ballI allI impI)
    fix k' w
    assume k': "k' \<in> msg_key ` set (optimisticOperations (transactions ?c1))"
      and w: "map_of (fst (combine (syncedData ?c1)
                 (optimisticOperations (transactions ?c1)) (nextRef ?c1))) k' = Some w"
    have ne: "k' \<noteq> k"
    proof
      assume "k' = k"
      with w deleted_key_absent [OF dmsg kmsg, of "syncedData ?c1" ?ops "nextRef ?c1"]
      show False by (simp only: ops1) simp
    qed
    from combine_value [OF k' w [unfolded combine_def]]
    show "oid w \<noteq> oid v"
    proof
      assume "\<exists>x \<in> set (optimisticOperations (transactions ?c1)).
                msg_type x = Insert \<and> msg_key x = k' \<and> msg_value x = w"
      then obtain x where x: "x \<in> set (?ops @ map message_of ms)"
        "msg_type x = Insert" "msg_key x = k'" "msg_value x = w"
        by (auto simp only: ops1)
      with dmsg have "x \<in> set ?ops" by auto
      with single x ne show ?thesis by auto
    next
      assume "\<exists>n \<ge> nextRef ?c1. oid w = Alloc n"
      with refs show ?thesis by auto
    qed
  qed
  have gone: "map_of (objectKeyMap c') (oid v) = None"
    unfolding c'' by (rule recompute_untracked [OF none refs absent])
  have cfg: "has_mutationFn (config c')"
    using mf by (simp add: c'' recompute_fields)
  have u: "update c' (Some (Single (ObjItem v))) md' tr = Inl ObjectNotFound"
    using cfg gone by (simp add: update_def itemsArray_def)
  then show ?thesis
    using gone by (simp add: or_same_def)
qed

theorem delete_untracks_current_object_witness:
  "delete synced_example (Single (ObjItem rec1)) None =
     Inr (run synced_example [DeleteCall (Single (ObjItem rec1)) None]) \<and>
   ObjItem rec1 \<in> set (itemsArray (Single (ObjItem rec1))) \<and>
   item_key synced_example (ObjItem rec1) = Some ''k1'' \<and>
   map_of (state synced_example) ''k1'' = Some rec1 \<and>
   oid rec1 = Ext 1 \<and>
   optimisticOperations (transactions synced_example) = [] \<and>
   update (run synced_example [DeleteCall (Single (ObjItem rec1)) None])
     (Some (Single (ObjItem rec1))) None set_b = Inl ObjectNotFound"
proof -
  have h1: "delete synced_example (Single (ObjItem rec1)) None =
     Inr (run synced_example [DeleteCall (Single (ObjItem rec1)) None])"
    by (simp add: synced_example_def delete_mutations.simps eval_defs)
  have h2: "ObjItem rec1 \<in> set (itemsArray (Single (ObjItem rec1)))"
    by (simp add: itemsArray_def)
  have h3: "item_key synced_example (ObjItem rec1) = Some ''k1''"
    and h4: "map_of (state synced_example) ''k1'' = Some rec1"
    by (simp_all add: synced_example_def item_key_def eval_defs)
  have x: "oid rec1 = Ext 1"
    by (simp add: rec1_def)
  then have h5: "\<forall>n \<ge> nextRef synced_example. oid rec1 \<noteq> Alloc n"
    by simp
  have o: "optimisticOperations (transactions synced_example) = []"
    by (simp add: synced_example_def eval_defs)
  then have h6: "\<forall>x \<in> set (optimisticOperations (transactions synced_example)).
      msg_type x = Insert \<and> msg_key x \<noteq> ''k1'' \<longrightarrow> oid (msg_value x) \<noteq> oid rec1"
    by simp
  from delete_untracks_current_object [OF h1 h2 h3 h4 h5 h6, of None set_b] h1 h2 h3 h4 x o
  show ?thesis by blast
qed

end
